theory Spec2Isabelle
  imports Main "HOL-Library.Sublist" "HOL-Library.Char_ord" "HOL-Library.List_Lexorder"
begin

section \<open>Texts and character classes\<close>

text \<open>
  A Python \<open>str\<close> is modelled as a \<^typ>\<open>string\<close>. The 256 values of \<^typ>\<open>char\<close> are read
  as the code points U+0000 to U+00FF. The classes below are the ones the regular
  expressions of \<open>compile-support-docs.py\<close> name, restricted to that range:
  \<open>\s\<close> (and \<open>str.strip\<close>) is Python's Unicode white space, which below U+0100 is
  09-0D, 1C-1F, 20, 85 and A0.
\<close>

abbreviation NL :: char where "NL \<equiv> CHR 0x0A"

definition is_space :: "char \<Rightarrow> bool" where
  "is_space c \<longleftrightarrow> c \<in> set [CHR 0x09, CHR 0x0A, CHR 0x0B, CHR 0x0C, CHR 0x0D,
     CHR 0x1C, CHR 0x1D, CHR 0x1E, CHR 0x1F, CHR 0x20, CHR 0x85, CHR 0xA0]"

definition is_upper :: "char \<Rightarrow> bool" where
  "is_upper c \<longleftrightarrow> c \<in> set ''ABCDEFGHIJKLMNOPQRSTUVWXYZ''"

definition is_lower :: "char \<Rightarrow> bool" where
  "is_lower c \<longleftrightarrow> c \<in> set ''abcdefghijklmnopqrstuvwxyz''"

definition is_alpha :: "char \<Rightarrow> bool" where
  "is_alpha c \<longleftrightarrow> is_lower c \<or> is_upper c"

definition is_blank :: "char \<Rightarrow> bool" where
  "is_blank c \<longleftrightarrow> c = CHR '' '' \<or> c = CHR 0x09"

definition is_quote :: "char \<Rightarrow> bool" where
  "is_quote c \<longleftrightarrow> c = CHR 0x22 \<or> c = CHR 0x27"

definition any_char :: "char \<Rightarrow> bool" where
  "any_char c \<longleftrightarrow> True"

definition is_char :: "char \<Rightarrow> char \<Rightarrow> bool" where
  "is_char a c \<longleftrightarrow> c = a"

definition not_char :: "char \<Rightarrow> char \<Rightarrow> bool" where
  "not_char a c \<longleftrightarrow> c \<noteq> a"

definition title_char :: "char \<Rightarrow> bool" where
  "title_char c \<longleftrightarrow> \<not> is_quote c \<and> c \<noteq> NL"

section \<open>A backtracking matcher for the patterns of the script\<close>

text \<open>
  Python's \<open>re\<close> is a backtracking matcher: it returns the first match in the order in
  which the alternatives are tried (a greedy quantifier tries the longest repetition
  first, a lazy one the shortest). A pattern is a sequence of atoms; every quantifier of
  the script is applied to a single character class, except the optional group
  \<open>(?:\s+[^>]*)?\<close>.
\<close>

datatype atom =
    Chr "char \<Rightarrow> bool"
  | Opt "char \<Rightarrow> bool"
  | Star "char \<Rightarrow> bool"
  | Plus "char \<Rightarrow> bool"
  | LazyStar "char \<Rightarrow> bool"
  | OptSeq "atom list"
  | Eol

definition lit :: "string \<Rightarrow> atom list" where
  "lit s = map (\<lambda>a. Chr (is_char a)) s"

definition add_char :: "char \<Rightarrow> string list \<times> string \<Rightarrow> string list \<times> string" where
  "add_char x r = (case r of (ps, rest) \<Rightarrow> ((x # hd ps) # tl ps, rest))"

definition add_piece :: "string \<Rightarrow> string list \<times> string \<Rightarrow> string list \<times> string" where
  "add_piece p r = (case r of (ps, rest) \<Rightarrow> (p # ps, rest))"

definition group_pieces :: "nat \<Rightarrow> string list \<times> string \<Rightarrow> string list \<times> string" where
  "group_pieces n r = (case r of (ps, rest) \<Rightarrow> (concat (take n ps) # drop n ps, rest))"

text \<open>
  \<open>rx_match as s\<close> matches the pattern \<open>as\<close> at the start of \<open>s\<close>. The result is the text
  each top-level atom matched, in order, and the unread rest of \<open>s\<close>.
\<close>

function rx_match :: "atom list \<Rightarrow> string \<Rightarrow> (string list \<times> string) option" where
  "rx_match [] s = Some ([], s)"
| "rx_match (Chr p # as) [] = None"
| "rx_match (Chr p # as) (x # xs) =
     (if p x then map_option (add_piece [x]) (rx_match as xs) else None)"
| "rx_match (Opt p # as) [] = map_option (add_piece []) (rx_match as [])"
| "rx_match (Opt p # as) (x # xs) =
     (case (if p x then rx_match as xs else None) of
        Some r \<Rightarrow> Some (add_piece [x] r)
      | None \<Rightarrow> map_option (add_piece []) (rx_match as (x # xs)))"
| "rx_match (Star p # as) [] = map_option (add_piece []) (rx_match as [])"
| "rx_match (Star p # as) (x # xs) =
     (case (if p x then rx_match (Star p # as) xs else None) of
        Some r \<Rightarrow> Some (add_char x r)
      | None \<Rightarrow> map_option (add_piece []) (rx_match as (x # xs)))"
| "rx_match (Plus p # as) [] = None"
| "rx_match (Plus p # as) (x # xs) =
     (if p x then map_option (add_char x) (rx_match (Star p # as) xs) else None)"
| "rx_match (LazyStar p # as) [] = map_option (add_piece []) (rx_match as [])"
| "rx_match (LazyStar p # as) (x # xs) =
     (case rx_match as (x # xs) of
        Some r \<Rightarrow> Some (add_piece [] r)
      | None \<Rightarrow> (if p x then map_option (add_char x) (rx_match (LazyStar p # as) xs) else None))"
| "rx_match (OptSeq bs # as) s =
     (case rx_match (bs @ as) s of
        Some r \<Rightarrow> Some (group_pieces (length bs) r)
      | None \<Rightarrow> map_option (add_piece []) (rx_match as s))"
| "rx_match (Eol # as) s =
     (if s = [] \<or> hd s = NL then map_option (add_piece []) (rx_match as s) else None)"
  by pat_completeness auto
termination
  by (relation "measures [\<lambda>(as, s). size_list size as, \<lambda>(as, s). length s]") auto

text \<open>
  \<open>re.sub(pattern, repl, s)\<close> for a constant replacement: the text is scanned from the
  left, a match is replaced and the scan goes on behind it, an unmatched character is
  copied. No pattern of the script matches the empty text; the branch for a match that
  consumes nothing copies the character and is there to make the scan total.
\<close>

function re_sub :: "atom list \<Rightarrow> string \<Rightarrow> string \<Rightarrow> string" where
  "re_sub rx repl [] = []"
| "re_sub rx repl (c # cs) =
     (case rx_match rx (c # cs) of
        None \<Rightarrow> c # re_sub rx repl cs
      | Some (ps, rest) \<Rightarrow>
          if length rest \<le> length cs then repl @ re_sub rx repl rest
          else repl @ c # re_sub rx repl cs)"
  by pat_completeness auto
termination
  by (relation "measure (\<lambda>(rx, repl, s). length s)") auto

declare re_sub.simps [simp del]

text \<open>
  \<open>re.search\<close> for a pattern that starts with \<open>^\<close> under \<open>re.MULTILINE\<close>: the pattern is
  tried at the start of the text and behind every newline, from left to right.
\<close>

fun re_search_bol :: "atom list \<Rightarrow> bool \<Rightarrow> string \<Rightarrow> (string list \<times> string) option" where
  "re_search_bol rx bol [] = (if bol then rx_match rx [] else None)"
| "re_search_bol rx bol (c # cs) =
     (case (if bol then rx_match rx (c # cs) else None) of
        Some r \<Rightarrow> Some r
      | None \<Rightarrow> re_search_bol rx (c = NL) cs)"

section \<open>Python's string operations\<close>

definition py_strip :: "string \<Rightarrow> string" where
  "py_strip s = rev (dropWhile is_space (rev (dropWhile is_space s)))"

text \<open>\<open>s.replace(old, new)\<close>: the occurrences of \<open>old\<close> from left to right, not overlapping.\<close>

function py_replace_scan :: "string \<Rightarrow> string \<Rightarrow> string \<Rightarrow> string" where
  "py_replace_scan old new [] = []"
| "py_replace_scan old new (c # cs) =
     (if old \<noteq> [] \<and> prefix old (c # cs)
      then new @ py_replace_scan old new (drop (length old) (c # cs))
      else c # py_replace_scan old new cs)"
  by pat_completeness auto
termination
  by (relation "measure (\<lambda>(old, new, s). length s)") (auto simp: Suc_le_eq)

declare py_replace_scan.simps [simp del]

definition py_replace :: "string \<Rightarrow> string \<Rightarrow> string \<Rightarrow> string" where
  "py_replace old new s =
     (if old = [] then new @ concat (map (\<lambda>c. c # new) s) else py_replace_scan old new s)"

fun py_join :: "string \<Rightarrow> string list \<Rightarrow> string" where
  "py_join sep [] = []"
| "py_join sep [x] = x"
| "py_join sep (x # y # ys) = x @ sep @ py_join sep (y # ys)"

definition digit_char :: "nat \<Rightarrow> char" where
  "digit_char d = ''0123456789'' ! d"

text \<open>\<open>str(n)\<close> for a count \<open>n\<close>, as an f-string renders it.\<close>

function show_nat :: "nat \<Rightarrow> string" where
  "show_nat n = (if n < 10 then [digit_char n] else show_nat (n div 10) @ [digit_char (n mod 10)])"
  by pat_completeness auto
termination
  by (relation "measure id") auto

declare show_nat.simps [simp del]

text \<open>
  \<open>str.title()\<close> goes through the text once: a character that follows a cased character
  gets its lower-case form, any other character its title-case form. Below U+0100 the
  cased characters are a-z, A-Z, U+00AA, U+00B5, U+00BA, U+00C0-U+00D6, U+00D8-U+00F6 and
  U+00F8-U+00FF; the upper-case letters are lower-cased by adding 32; the title-case form
  of a lower-case letter is 32 below it, except that the one of U+00DF is \<open>Ss\<close> and that
  U+00AA and U+00BA have none. The title-case forms of U+00B5 and U+00FF are U+039C and
  U+0178, which \<^typ>\<open>char\<close> does not have: \<open>title_chars\<close> leaves these two characters as
  they are, and what is stated about titles is stated for names without them
  (\<open>title_in_range\<close>).
\<close>

definition is_cased :: "char \<Rightarrow> bool" where
  "is_cased c \<longleftrightarrow>
     (let n = (of_char c :: nat)
      in (65 \<le> n \<and> n \<le> 90) \<or> (97 \<le> n \<and> n \<le> 122) \<or> n = 170 \<or> n = 181 \<or> n = 186
         \<or> (192 \<le> n \<and> n \<le> 214) \<or> (216 \<le> n \<and> n \<le> 246) \<or> (248 \<le> n \<and> n \<le> 255))"

definition lower_char :: "char \<Rightarrow> char" where
  "lower_char c =
     (let n = (of_char c :: nat)
      in if (65 \<le> n \<and> n \<le> 90) \<or> (192 \<le> n \<and> n \<le> 214) \<or> (216 \<le> n \<and> n \<le> 222)
         then char_of (n + 32) else c)"

definition title_chars :: "char \<Rightarrow> string" where
  "title_chars c =
     (let n = (of_char c :: nat)
      in if (97 \<le> n \<and> n \<le> 122) \<or> (224 \<le> n \<and> n \<le> 246) \<or> (248 \<le> n \<and> n \<le> 254)
         then [char_of (n - 32)]
         else if n = 223 then ''Ss'' else [c])"


fun title_from :: "bool \<Rightarrow> string \<Rightarrow> string" where
  "title_from prev [] = []"
| "title_from prev (c # cs) =
     (if prev then [lower_char c] else title_chars c) @ title_from (is_cased c) cs"

definition py_title :: "string \<Rightarrow> string" where
  "py_title s = title_from False s"

section \<open>Paths\<close>

text \<open>
  Paths are POSIX path strings. \<open>path_name\<close> is \<open>Path.name\<close>, \<open>path_stem\<close> is \<open>Path.stem\<close>
  (the name without its last suffix; a name has a suffix when its last dot is neither
  its first nor its last character).
\<close>

datatype py_error = OSError string | UnicodeDecodeError string | ValueError string

fun error_text :: "py_error \<Rightarrow> string" where
  "error_text (OSError m) = m"
| "error_text (UnicodeDecodeError m) = m"
| "error_text (ValueError m) = m"

definition path_name :: "string \<Rightarrow> string" where
  "path_name p = rev (takeWhile (\<lambda>c. c \<noteq> CHR ''/'') (rev p))"

definition path_stem :: "string \<Rightarrow> string" where
  "path_stem p =
     (let name = path_name p;
          after = takeWhile (\<lambda>c. c \<noteq> CHR ''.'') (rev name)
      in if CHR ''.'' \<in> set name \<and> 0 < length name - length after - 1 \<and> after \<noteq> []
         then take (length name - length after - 1) name
         else name)"

text \<open>\<open>str(filepath.relative_to(docs_dir))\<close>; it raises \<open>ValueError\<close> for a path outside.\<close>

definition relative_to :: "string \<Rightarrow> string \<Rightarrow> py_error + string" where
  "relative_to filepath docs_dir =
     (if prefix (docs_dir @ ''/'') filepath
      then Inr (drop (length docs_dir + 1) filepath)
      else Inl (ValueError ''not in the subpath''))"


section \<open>The transformations of one file\<close>

definition frontmatter_rx :: "atom list" where
  "frontmatter_rx = lit ''---'' @ [Star is_space, Chr (is_char NL), LazyStar any_char, Chr (is_char NL)]
     @ lit ''---'' @ [Star is_space, Chr (is_char NL)]"

definition title_rx :: "atom list" where
  "title_rx = lit ''title:'' @ [Star is_space, Opt is_quote, Plus title_char, Opt is_quote,
     Star is_space, Eol]"

definition fallback_title :: "string \<Rightarrow> string" where
  "fallback_title filepath =
     py_title (py_replace ''_'' '' '' (py_replace ''-'' '' '' (path_stem filepath)))"

text \<open>
  \<open>re.match\<close> tries the pattern at the start of the text only, where its \<open>^\<close> holds.
  Group 1 of the header pattern is the piece of its sixth atom, group 1 of the title
  pattern the piece of its ninth.
\<close>

definition extract_frontmatter_title :: "string \<Rightarrow> string \<Rightarrow> string" where
  "extract_frontmatter_title content filepath =
     (case rx_match frontmatter_rx content of
        Some (ps, rest) \<Rightarrow>
          (case re_search_bol title_rx True (ps ! 5) of
             Some (qs, rest') \<Rightarrow> py_strip (qs ! 8)
           | None \<Rightarrow> fallback_title filepath)
      | None \<Rightarrow> fallback_title filepath)"

text \<open>
  \<open>re.sub\<close> without \<open>re.MULTILINE\<close>: \<open>^\<close> holds at the start of the text only, so at most
  the one match there is removed.
\<close>

definition strip_frontmatter :: "string \<Rightarrow> string" where
  "strip_frontmatter content =
     (case rx_match frontmatter_rx content of Some (ps, rest) \<Rightarrow> rest | None \<Rightarrow> content)"

definition self_closing_rx :: "atom list" where
  "self_closing_rx = [Chr (is_char CHR ''<''), Chr is_upper, Star is_alpha, Plus is_space,
     Star (not_char CHR ''>'')] @ lit ''/>''"

definition opening_rx :: "atom list" where
  "opening_rx = [Chr (is_char CHR ''<''), Chr is_upper, Star is_alpha,
     OptSeq [Plus is_space, Star (not_char CHR ''>'')], Chr (is_char CHR ''>'')]"

definition closing_rx :: "atom list" where
  "closing_rx = lit ''</'' @ [Chr is_upper, Star is_alpha, Chr (is_char CHR ''>'')]"

definition malformed_rx :: "atom list" where
  "malformed_rx = [Chr (is_char CHR ''<''), Chr is_upper, Star is_alpha, Star is_space] @ lit ''/>''"

definition strip_mdx_components :: "string \<Rightarrow> string" where
  "strip_mdx_components content =
     re_sub malformed_rx [] (re_sub closing_rx [] (re_sub opening_rx [] (re_sub self_closing_rx [] content)))"

definition code_block_rx :: "atom list" where
  "code_block_rx = lit ''```'' @ [LazyStar any_char] @ lit ''```''"

definition blank_lines_rx :: "atom list" where
  "blank_lines_rx = [Chr (is_char NL), Chr (is_char NL), Chr (is_char NL), Star (is_char NL)]"

definition trailing_ws_rx :: "atom list" where
  "trailing_ws_rx = [Plus is_blank, Eol]"

definition placeholder :: "nat \<Rightarrow> string" where
  "placeholder i = ''__CODE_BLOCK_'' @ show_nat i @ ''__''"

text \<open>
  \<open>re.sub\<close> with the callback \<open>save_code_block\<close>: \<open>n\<close> is \<open>len(code_blocks)\<close> when the scan
  reaches the text; the result is the text with placeholders and the blocks appended.
\<close>

function save_code_blocks :: "nat \<Rightarrow> string \<Rightarrow> string \<times> string list" where
  "save_code_blocks n [] = ([], [])"
| "save_code_blocks n (c # cs) =
     (case rx_match code_block_rx (c # cs) of
        None \<Rightarrow> (case save_code_blocks n cs of (out, blocks) \<Rightarrow> (c # out, blocks))
      | Some (ps, rest) \<Rightarrow>
          if length rest \<le> length cs
          then (case save_code_blocks (Suc n) rest of
                  (out, blocks) \<Rightarrow> (placeholder n @ out, concat ps # blocks))
          else (case save_code_blocks n cs of (out, blocks) \<Rightarrow> (c # out, blocks)))"
  by pat_completeness auto
termination
  by (relation "measure (\<lambda>(n, s). length s)") auto

declare save_code_blocks.simps [simp del]

fun restore_code_blocks :: "nat \<Rightarrow> string list \<Rightarrow> string \<Rightarrow> string" where
  "restore_code_blocks i [] content = content"
| "restore_code_blocks i (block # blocks) content =
     restore_code_blocks (Suc i) blocks (py_replace (placeholder i) block content)"

definition clean_whitespace :: "string \<Rightarrow> string" where
  "clean_whitespace content =
     (case save_code_blocks 0 content of
        (saved, code_blocks) \<Rightarrow>
          py_strip (restore_code_blocks 0 code_blocks
            (re_sub trailing_ws_rx [] (re_sub blank_lines_rx [NL, NL] saved))))"

section \<open>The run\<close>

text \<open>
  The world the script runs in: the content root, the \<open>*.mdx\<close> files that \<open>glob\<close> finds
  under it (their paths relative to the root, in any order), what reading each file
  gives, and whether creating the output directory and writing the output file fail.
\<close>

record env =
  docs_dir :: string
  found :: "string list"
  read_text :: "string \<Rightarrow> py_error + string"
  mkdir_error :: "py_error option"
  write_error :: "py_error option"

text \<open>\<open>docs_dir / r\<close> as a string: the path that \<open>glob\<close> returns for the file \<open>r\<close>.\<close>

definition join_path :: "string \<Rightarrow> string \<Rightarrow> string" where
  "join_path dir r = dir @ ''/'' @ r"

definition mdx_files :: "env \<Rightarrow> string list" where
  "mdx_files e = sort (map (join_path (docs_dir e)) (found e))"

definition process_mdx_file :: "env \<Rightarrow> string \<Rightarrow> string \<Rightarrow> py_error + string \<times> string \<times> string" where
  "process_mdx_file e filepath dir =
     (case read_text e filepath of
        Inl err \<Rightarrow> Inl err
      | Inr content \<Rightarrow>
          (let title = extract_frontmatter_title content filepath;
               content1 = strip_frontmatter content;
               content2 = strip_mdx_components content1;
               content3 = clean_whitespace content2
           in case relative_to filepath dir of
                Inl err \<Rightarrow> Inl err
              | Inr relative_path \<Rightarrow> Inr (title, relative_path, content3)))"

definition should_include_file :: "string \<Rightarrow> string \<Rightarrow> py_error + bool" where
  "should_include_file filepath dir =
     (case relative_to filepath dir of
        Inl err \<Rightarrow> Inl err
      | Inr relative_str \<Rightarrow>
          if prefix ''snippets/'' relative_str \<or> prefix (''snippets'' @ [CHR 0x5C]) relative_str
          then Inr False else Inr True)"

definition rule_line :: string where
  "rule_line = replicate 80 CHR ''=''"

definition render_section :: "string \<Rightarrow> string \<Rightarrow> string \<Rightarrow> string" where
  "render_section title source content =
     rule_line @ [NL] @ ''SECTION: '' @ title @ [NL] @ ''SOURCE: '' @ source @ [NL] @ rule_line @ [NL]
     @ [NL] @ content @ [NL]"

definition render_header :: "nat \<Rightarrow> string" where
  "render_header n =
     ''ChatAds Documentation'' @ [NL] @ ''Generated for Support Chatbot Context'' @ [NL] @ rule_line @ [NL]
     @ [NL] @ ''This file contains the complete ChatAds documentation compiled from '' @ show_nat n
     @ '' pages.'' @ [NL] @ ''Use this as context when answering user questions about ChatAds.'' @ [NL]
     @ [NL]"

record compile_state =
  sections :: "string list"
  processed_count :: nat
  skipped_count :: nat
  failed_files :: "string list"
  printed :: "string list"

definition init_state :: compile_state where
  "init_state = \<lparr>sections = [], processed_count = 0, skipped_count = 0, failed_files = [], printed = []\<rparr>"

text \<open>
  The loop over the sorted paths. \<open>should_include_file\<close> runs outside the \<open>try\<close>, so an
  error there ends the run; an error of \<open>process_mdx_file\<close> is caught, printed and
  recorded.
\<close>

fun compile_loop :: "env \<Rightarrow> string list \<Rightarrow> compile_state \<Rightarrow> py_error + compile_state" where
  "compile_loop e [] st = Inr st"
| "compile_loop e (mdx_path # paths) st =
     (case should_include_file mdx_path (docs_dir e) of
        Inl err \<Rightarrow> Inl err
      | Inr False \<Rightarrow> compile_loop e paths (st\<lparr>skipped_count := skipped_count st + 1\<rparr>)
      | Inr True \<Rightarrow>
          (case process_mdx_file e mdx_path (docs_dir e) of
             Inr (title, source, content) \<Rightarrow>
               compile_loop e paths
                 (st\<lparr>sections := sections st @ [render_section title source content],
                     processed_count := processed_count st + 1\<rparr>)
           | Inl err \<Rightarrow>
               compile_loop e paths
                 (st\<lparr>failed_files := failed_files st @ [mdx_path],
                     printed := printed st
                       @ [''Warning: Failed to process '' @ mdx_path @ '': '' @ error_text err]\<rparr>)))"

definition summary_lines :: "compile_state \<Rightarrow> string list" where
  "summary_lines st =
     [''Processed '' @ show_nat (processed_count st) @ '' files, skipped ''
        @ show_nat (skipped_count st) @ '' files'']
     @ (if failed_files st \<noteq> []
        then [''Failed to process '' @ show_nat (length (failed_files st)) @ '' files:'']
             @ map (\<lambda>f. ''  - '' @ f) (failed_files st)
        else [])"

text \<open>\<open>compile_docs\<close> returns the output text; the state is kept for what was printed.\<close>

definition compile_docs :: "env \<Rightarrow> py_error + string \<times> compile_state" where
  "compile_docs e =
     (case compile_loop e (mdx_files e) init_state of
        Inl err \<Rightarrow> Inl err
      | Inr st \<Rightarrow>
          Inr (render_header (processed_count st) @ py_join [NL, NL] (sections st),
               st\<lparr>printed := printed st @ summary_lines st\<rparr>))"






section \<open>Notions used to state the properties\<close>

definition is_included :: "env \<Rightarrow> string \<Rightarrow> bool" where
  "is_included e p \<longleftrightarrow> should_include_file p (docs_dir e) = Inr True"

definition is_readable :: "env \<Rightarrow> string \<Rightarrow> bool" where
  "is_readable e p = (case read_text e p of Inr content \<Rightarrow> True | Inl err \<Rightarrow> False)"

text \<open>The section a file gives when it is processed, and the warning when it fails.\<close>

definition section_of :: "env \<Rightarrow> string \<Rightarrow> string" where
  "section_of e p =
     (case process_mdx_file e p (docs_dir e) of
        Inr (title, source, content) \<Rightarrow> render_section title source content
      | Inl err \<Rightarrow> [])"

definition warning_of :: "env \<Rightarrow> string \<Rightarrow> string" where
  "warning_of e p =
     (case read_text e p of
        Inl err \<Rightarrow> ''Warning: Failed to process '' @ p @ '': '' @ error_text err
      | Inr content \<Rightarrow> [])"

text \<open>The paths whose sections the output holds, in the order of the loop.\<close>

definition section_paths :: "env \<Rightarrow> string list" where
  "section_paths e = [p \<leftarrow> mdx_files e. is_included e p \<and> is_readable e p]"

definition failed_paths :: "env \<Rightarrow> string list" where
  "failed_paths e = [p \<leftarrow> mdx_files e. is_included e p \<and> \<not> is_readable e p]"

text \<open>The first component of a relative path, under either separator convention.\<close>

definition first_component :: "string \<Rightarrow> string" where
  "first_component r = takeWhile (\<lambda>c. c \<noteq> CHR ''/'' \<and> c \<noteq> CHR 0x5C) r"

section \<open>Concrete runs\<close>

text \<open>
  Eleven files are found, one of them a fragment; reading \<open>c.mdx\<close> fails. The other
  worlds differ from it in the files found or in what fails.
\<close>

definition ten_files_env :: env where
  "ten_files_env =
     \<lparr>docs_dir = ''/d'',
      found = [''j.mdx'', ''a.mdx'', ''b.mdx'', ''c.mdx'', ''snippets/s.mdx'', ''d.mdx'', ''e.mdx'',
               ''f.mdx'', ''g.mdx'', ''h.mdx'', ''i.mdx''],
      read_text = (\<lambda>p. if p = ''/d/c.mdx'' then Inl (OSError ''Permission denied'') else Inr ''Hi''),
      mkdir_error = None,
      write_error = None\<rparr>"


definition near_snippets_env :: env where
  "near_snippets_env =
     \<lparr>docs_dir = ''/d'',
      found = [''snippets/s.mdx'', ''snippets-extra/page.mdx'', ''snippets.mdx''],
      read_text = (\<lambda>p. Inr ''Hi''), mkdir_error = None, write_error = None\<rparr>"

section \<open>Notions used to state the title properties\<close>

text \<open>
  \<open>s.split(sep)\<close> for a single character: the pieces between the separators. A
  character that is not the separator goes in front of the first piece of the rest.
\<close>

fun cons_first :: "char \<Rightarrow> string list \<Rightarrow> string list" where
  "cons_first c [] = [[c]]"
| "cons_first c (l # ls) = (c # l) # ls"

fun split_on :: "char \<Rightarrow> string \<Rightarrow> string list" where
  "split_on sep [] = [[]]"
| "split_on sep (c # cs) = (if c = sep then [] # split_on sep cs else cons_first c (split_on sep cs))"

text \<open>
  The header block in the words of the specification: the first line of the file is
  three hyphens, and the block ends with the next line that is three hyphens. The result
  is the lines of the body between the two, and the lines of the file behind the closing
  line; there is none behind it when the file ends with the closing line, without a
  newline.
\<close>

definition header_block :: "string \<Rightarrow> (string list \<times> string list) option" where
  "header_block content =
     (case split_on NL content of
        [] \<Rightarrow> None
      | first # rest \<Rightarrow>
          if first = ''---'' \<and> ''---'' \<in> set rest
          then Some (takeWhile (\<lambda>l. l \<noteq> ''---'') rest, drop 1 (dropWhile (\<lambda>l. l \<noteq> ''---'') rest))
          else None)"

text \<open>
  A line that holds a title field; a line of white space only (the empty line is one);
  and a line of three hyphens with white space behind them.
\<close>

definition title_field :: "string \<Rightarrow> bool" where
  "title_field l \<longleftrightarrow> prefix ''title:'' l"


definition padded_delimiter :: "string \<Rightarrow> bool" where
  "padded_delimiter l \<longleftrightarrow> prefix ''---'' l \<and> drop 3 l \<noteq> [] \<and> list_all is_space (drop 3 l)"





text \<open>The line \<open>title: "Quick Start"\<close>, and a header that has a title line before it.\<close>

definition quick_start_line :: string where
  "quick_start_line = ''title: '' @ [CHR 0x22] @ ''Quick Start'' @ [CHR 0x22]"

definition two_titles_content :: string where
  "two_titles_content =
     ''---'' @ [NL] @ ''title: Draft'' @ [NL] @ quick_start_line @ [NL] @ ''---'' @ [NL] @ ''Body''"

definition quick_start_content :: string where
  "quick_start_content =
     ''---'' @ [NL] @ ''description: x'' @ [NL] @ quick_start_line @ [NL] @ ''icon: y'' @ [NL] @ ''---''
     @ [NL] @ ''Body''"


text \<open>
  Four more files: one whose header ends the file, one whose header has a line of three
  hyphens and a space before the title line, one that begins with three hyphens and a
  space, and one whose header has a body of one empty line.
\<close>

definition unterminated_content :: string where
  "unterminated_content = ''---'' @ [NL] @ quick_start_line @ [NL] @ ''---''"

definition padded_body_content :: string where
  "padded_body_content =
     ''---'' @ [NL] @ ''icon: y'' @ [NL] @ ''--- '' @ [NL] @ quick_start_line @ [NL] @ ''---'' @ [NL]
     @ ''Body''"



section \<open>Notions used to state the tag-stripping property\<close>

text \<open>
  A text in which no tag lies inside the brackets of another is a sequence of: a
  character other than \<open><\<close>; a \<open><\<close> before a character that can start neither a
  component name nor a closing tag; a complete tag \<open><...>\<close> with no \<open><\<close> and no \<open>>\<close> inside.
\<close>

datatype tok = Txt char | Lone char | Tag string

fun render_tok :: "tok \<Rightarrow> string" where
  "render_tok (Txt c) = [c]"
| "render_tok (Lone c) = [CHR ''<'', c]"
| "render_tok (Tag v) = CHR ''<'' # v @ ''>''"

definition render_toks :: "tok list \<Rightarrow> string" where
  "render_toks ts = concat (map render_tok ts)"

fun wf_tok :: "tok \<Rightarrow> bool" where
  "wf_tok (Txt c) \<longleftrightarrow> c \<noteq> CHR ''<''"
| "wf_tok (Lone c) \<longleftrightarrow> \<not> is_upper c \<and> c \<noteq> CHR ''/'' \<and> c \<noteq> CHR ''<''"
| "wf_tok (Tag v) \<longleftrightarrow> CHR ''<'' \<notin> set v \<and> CHR ''>'' \<notin> set v"

text \<open>Whether a pattern matches the complete tag \<open><v>\<close>, and the tokens a pass keeps.\<close>

definition tag_matches :: "atom list \<Rightarrow> string \<Rightarrow> bool" where
  "tag_matches rx v \<longleftrightarrow> rx_match rx (CHR ''<'' # v @ ''>'') \<noteq> None"

fun kept :: "atom list \<Rightarrow> tok \<Rightarrow> bool" where
  "kept rx (Tag v) \<longleftrightarrow> \<not> tag_matches rx v"
| "kept rx t \<longleftrightarrow> True"

text \<open>
  An atom avoids a character when it cannot read it; a pattern stops at a character
  when it ends with that character and no atom before can read it.
\<close>

fun avoids :: "char \<Rightarrow> atom \<Rightarrow> bool" where
  "avoids c (Chr p) \<longleftrightarrow> \<not> p c"
| "avoids c (Opt p) \<longleftrightarrow> \<not> p c"
| "avoids c (Star p) \<longleftrightarrow> \<not> p c"
| "avoids c (Plus p) \<longleftrightarrow> \<not> p c"
| "avoids c (LazyStar p) \<longleftrightarrow> \<not> p c"
| "avoids c (OptSeq bs) \<longleftrightarrow> list_all (avoids c) bs"
| "avoids c Eol \<longleftrightarrow> False"

definition stops_at :: "char \<Rightarrow> atom list \<Rightarrow> bool" where
  "stops_at c as \<longleftrightarrow> as \<noteq> [] \<and> last as = Chr (is_char c) \<and> list_all (avoids c) (butlast as)"

definition set_rest :: "string \<Rightarrow> string list \<times> string \<Rightarrow> string list \<times> string" where
  "set_rest rest r = (fst r, rest)"

definition nested_tag_text :: string where
  "nested_tag_text = ''<<Card>Card>''"

definition flat_tokens :: "tok list" where
  "flat_tokens = [Txt CHR ''a'', Lone CHR '' '', Txt CHR ''b'', Tag ''Card title=x'', Txt CHR ''W'',
     Tag ''/Card'', Tag ''br/'', Tag ''Icon /'', Tag ''Note/'', Tag ''/div'', Txt CHR ''>'']"

text \<open>The shape the four tag patterns share.\<close>

definition tag_rx :: "atom list \<Rightarrow> bool" where
  "tag_rx rx \<longleftrightarrow> stops_at CHR ''>'' rx
     \<and> (\<exists>q as. rx = Chr (is_char CHR ''<'') # Chr q # as \<and> (\<forall>c. q c \<longrightarrow> is_upper c \<or> c = CHR ''/''))"

section \<open>Paths under the content root\<close>

lemma relative_to_under: "relative_to (join_path d r) d = Inr r"
proof -
  have "prefix (d @ ''/'') (d @ ''/'' @ r)" by simp
  moreover have "drop (length d + 1) (d @ ''/'' @ r) = r" by simp
  ultimately show ?thesis unfolding relative_to_def join_path_def by (simp del: append.simps)
qed

lemma should_include_under:
  "should_include_file (join_path d r) d =
     Inr (\<not> (prefix ''snippets/'' r \<or> prefix (''snippets'' @ [CHR 0x5C]) r))"
  unfolding should_include_file_def relative_to_under by simp

lemma process_under:
  "process_mdx_file e (join_path d r) d =
     (case read_text e (join_path d r) of
        Inl err \<Rightarrow> Inl err
      | Inr content \<Rightarrow>
          Inr (extract_frontmatter_title content (join_path d r), r,
               clean_whitespace (strip_mdx_components (strip_frontmatter content))))"
  unfolding process_mdx_file_def relative_to_under by (simp add: Let_def split: sum.splits)

lemma mdx_files_under: "\<exists>rs. mdx_files e = map (join_path (docs_dir e)) rs \<and> set rs = set (found e)"
proof -
  have inj: "inj (join_path (docs_dir e))" by (simp add: inj_on_def join_path_def)
  have "set (mdx_files e) \<subseteq> range (join_path (docs_dir e))"
    by (auto simp: mdx_files_def)
  then obtain rs where rs: "mdx_files e = map (join_path (docs_dir e)) rs"
    by (metis ex_map_conv subset_iff rangeE)
  have "join_path (docs_dir e) ` set rs = join_path (docs_dir e) ` set (found e)"
    using rs by (metis list.set_map mdx_files_def set_sort)
  with inj have "set rs = set (found e)" by (simp add: inj_image_eq_iff)
  with rs show ?thesis by blast
qed

section \<open>What the loop computes\<close>

lemma compile_loop_under:
  "compile_loop e (map (join_path (docs_dir e)) rs) st =
     Inr (st\<lparr>sections := sections st @ map (section_of e)
                [p \<leftarrow> map (join_path (docs_dir e)) rs. is_included e p \<and> is_readable e p],
             processed_count := processed_count st
                + length [p \<leftarrow> map (join_path (docs_dir e)) rs. is_included e p \<and> is_readable e p],
             skipped_count := skipped_count st
                + length [p \<leftarrow> map (join_path (docs_dir e)) rs. \<not> is_included e p],
             failed_files := failed_files st
                @ [p \<leftarrow> map (join_path (docs_dir e)) rs. is_included e p \<and> \<not> is_readable e p],
             printed := printed st @ map (warning_of e)
                [p \<leftarrow> map (join_path (docs_dir e)) rs. is_included e p \<and> \<not> is_readable e p]\<rparr>)"
proof (induction rs arbitrary: st)
  case Nil
  then show ?case by simp
next
  case (Cons r rs)
  let ?p = "join_path (docs_dir e) r"
  show ?case
  proof (cases "is_included e ?p")
    case False
    then have "should_include_file ?p (docs_dir e) = Inr False"
      by (simp add: is_included_def should_include_under)
    with False show ?thesis by (simp add: Cons.IH)
  next
    case True
    then have inc: "should_include_file ?p (docs_dir e) = Inr True"
      by (simp add: is_included_def)
    show ?thesis
    proof (cases "read_text e ?p")
      case (Inl err)
      then have "process_mdx_file e ?p (docs_dir e) = Inl err" by (simp add: process_under)
      with True inc Inl show ?thesis
        by (simp add: Cons.IH is_readable_def warning_of_def)
    next
      case (Inr content)
      then obtain t c where "process_mdx_file e ?p (docs_dir e) = Inr (t, r, c)"
        by (simp add: process_under)
      with True inc Inr show ?thesis
        by (simp add: Cons.IH is_readable_def section_of_def)
    qed
  qed
qed

lemma compile_loop_files:
  "compile_loop e (mdx_files e) init_state =
     Inr \<lparr>sections = map (section_of e) (section_paths e),
          processed_count = length (section_paths e),
          skipped_count = length [p \<leftarrow> mdx_files e. \<not> is_included e p],
          failed_files = failed_paths e,
          printed = map (warning_of e) (failed_paths e)\<rparr>"
proof -
  obtain rs where rs: "mdx_files e = map (join_path (docs_dir e)) rs"
    using mdx_files_under by blast
  show ?thesis
    unfolding section_paths_def failed_paths_def rs compile_loop_under
    by (simp add: init_state_def)
qed


lemma compile_docs_result:
  "compile_docs e =
     Inr (render_header (length (section_paths e)) @ py_join [NL, NL] (map (section_of e) (section_paths e)),
          \<lparr>sections = map (section_of e) (section_paths e),
           processed_count = length (section_paths e),
           skipped_count = length [p \<leftarrow> mdx_files e. \<not> is_included e p],
           failed_files = failed_paths e,
           printed = map (warning_of e) (failed_paths e)
             @ summary_lines
                 \<lparr>sections = map (section_of e) (section_paths e),
                  processed_count = length (section_paths e),
                  skipped_count = length [p \<leftarrow> mdx_files e. \<not> is_included e p],
                  failed_files = failed_paths e,
                  printed = map (warning_of e) (failed_paths e)\<rparr>\<rparr>)"
  unfolding compile_docs_def compile_loop_files by simp



lemma section_paths_under:
  assumes "p \<in> set (section_paths e)"
  shows "\<exists>r \<in> set (found e). p = join_path (docs_dir e) r
           \<and> \<not> prefix ''snippets/'' r \<and> \<not> prefix (''snippets'' @ [CHR 0x5C]) r"
proof -
  from assms have "p \<in> set (mdx_files e)" and inc: "is_included e p"
    by (auto simp: section_paths_def)
  then obtain r where r: "r \<in> set (found e)" "p = join_path (docs_dir e) r"
    by (auto simp: mdx_files_def)
  with inc show ?thesis
    by (auto simp: is_included_def should_include_under)
qed


lemma first_component_snippets:
  "(prefix ''snippets/'' r \<or> prefix (''snippets'' @ [CHR 0x5C]) r)
     \<longleftrightarrow> (first_component r = ''snippets'' \<and> first_component r \<noteq> r)"
proof
  assume "prefix ''snippets/'' r \<or> prefix (''snippets'' @ [CHR 0x5C]) r"
  then obtain c t where "r = ''snippets'' @ c # t" "c = CHR ''/'' \<or> c = CHR 0x5C"
    by (auto simp: prefix_def)
  then show "first_component r = ''snippets'' \<and> first_component r \<noteq> r"
    by (auto simp: first_component_def)
next
  let ?P = "\<lambda>c. c \<noteq> CHR ''/'' \<and> c \<noteq> CHR 0x5C"
  assume a: "first_component r = ''snippets'' \<and> first_component r \<noteq> r"
  have split: "r = takeWhile ?P r @ dropWhile ?P r" by simp
  with a have ne: "dropWhile ?P r \<noteq> []"
    unfolding first_component_def by (metis append_Nil2)
  then have "\<not> ?P (hd (dropWhile ?P r))" by (rule hd_dropWhile)
  with ne obtain c t where ct: "dropWhile ?P r = c # t" "c = CHR ''/'' \<or> c = CHR 0x5C"
    by (cases "dropWhile ?P r") auto
  from split a ct have "r = ''snippets'' @ c # t"
    unfolding first_component_def by metis
  with ct(2) show "prefix ''snippets/'' r \<or> prefix (''snippets'' @ [CHR 0x5C]) r"
    by (auto simp: prefix_def)
qed

section \<open>Properties of the run\<close>






text \<open>
  C8. A file found under \<open>snippets/\<close> (or \<open>snippets\\<close>) has no section in the output:
  the sections are those of \<open>section_paths\<close>, its path is not among them, and no section
  carries its relative path as \<open>SOURCE\<close>, whatever the file contains.
\<close>

theorem fragments_have_no_section:
  assumes "r \<in> set (found e)"
    and "prefix ''snippets/'' r \<or> prefix (''snippets'' @ [CHR 0x5C]) r"
  shows "\<exists>out st. compile_docs e = Inr (out, st)
           \<and> out = render_header (processed_count st) @ py_join [NL, NL] (sections st)
           \<and> sections st = map (section_of e) (section_paths e)
           \<and> join_path (docs_dir e) r \<notin> set (section_paths e)
           \<and> (\<forall>p \<in> set (section_paths e). \<forall>title source content.
                 process_mdx_file e p (docs_dir e) = Inr (title, source, content) \<longrightarrow> source \<noteq> r)"
proof -
  have a: "join_path (docs_dir e) r \<notin> set (section_paths e)"
    using assms(2) by (auto simp: section_paths_def is_included_def should_include_under)
  have b: "source \<noteq> r"
    if "p \<in> set (section_paths e)" "process_mdx_file e p (docs_dir e) = Inr (title, source, content)"
    for p title source content
  proof -
    from that(1) obtain r' where r': "p = join_path (docs_dir e) r'"
      "\<not> prefix ''snippets/'' r'" "\<not> prefix (''snippets'' @ [CHR 0x5C]) r'"
      using section_paths_under by blast
    from that(2) have "source = r'"
      unfolding r'(1) process_under by (auto split: sum.splits)
    with r' assms(2) show ?thesis by auto
  qed
  show ?thesis
    unfolding compile_docs_result using a b by simp
qed

theorem fragments_have_no_section_witness:
  "''snippets/s.mdx'' \<in> set (found ten_files_env)
   \<and> prefix ''snippets/'' ''snippets/s.mdx''
   \<and> (\<exists>out st. compile_docs ten_files_env = Inr (out, st)
         \<and> sections st = map (section_of ten_files_env) (section_paths ten_files_env)
         \<and> ''/d/snippets/s.mdx'' \<notin> set (section_paths ten_files_env))"
proof -
  have h1: "''snippets/s.mdx'' \<in> set (found ten_files_env)"
    by (simp add: ten_files_env_def)
  have h2: "prefix ''snippets/'' ''snippets/s.mdx'' \<or> prefix (''snippets'' @ [CHR 0x5C]) ''snippets/s.mdx''"
    by simp
  have h3: "join_path (docs_dir ten_files_env) ''snippets/s.mdx'' = ''/d/snippets/s.mdx''"
    by (simp add: join_path_def ten_files_env_def)
  from fragments_have_no_section [OF h1 h2] h1 h3 show ?thesis
    by auto
qed

text \<open>
  C9. The sections of the output are those of \<open>section_paths\<close>, in that order, and
  \<open>section_paths\<close> is sorted by the list order on strings, which compares the absolute
  paths character by character.
\<close>

theorem sections_in_path_order:
  "\<exists>out st. compile_docs e = Inr (out, st)
     \<and> out = render_header (processed_count st) @ py_join [NL, NL] (sections st)
     \<and> sections st = map (section_of e) (section_paths e)
     \<and> sorted (section_paths e)
     \<and> set (section_paths e) \<subseteq> join_path (docs_dir e) ` set (found e)"
proof -
  have "sorted (section_paths e)"
    unfolding section_paths_def mdx_files_def by (rule sorted_wrt_filter) simp
  moreover have "set (section_paths e) \<subseteq> join_path (docs_dir e) ` set (found e)"
    using section_paths_under by blast
  ultimately show ?thesis
    unfolding compile_docs_result by simp
qed

theorem sections_in_path_order_witness:
  "section_paths ten_files_env
     = [''/d/a.mdx'', ''/d/b.mdx'', ''/d/d.mdx'', ''/d/e.mdx'', ''/d/f.mdx'', ''/d/g.mdx'',
        ''/d/h.mdx'', ''/d/i.mdx'', ''/d/j.mdx'']
   \<and> (\<exists>out st. compile_docs ten_files_env = Inr (out, st)
         \<and> sections st = map (section_of ten_files_env) (section_paths ten_files_env)
         \<and> sorted (section_paths ten_files_env))"
proof -
  have "section_paths ten_files_env
     = [''/d/a.mdx'', ''/d/b.mdx'', ''/d/d.mdx'', ''/d/e.mdx'', ''/d/f.mdx'', ''/d/g.mdx'',
        ''/d/h.mdx'', ''/d/i.mdx'', ''/d/j.mdx'']"
    by code_simp
  with sections_in_path_order [of ten_files_env] show ?thesis
    by blast
qed

text \<open>
  C10. The filter excludes a path exactly when its first component, cut at the first
  slash or backslash, is \<open>snippets\<close> and something follows it. A path that only begins
  with the letters \<open>snippets\<close> passes the filter and, when it can be read, has its section
  in the output.
\<close>

theorem only_snippets_directory:
  "should_include_file (join_path (docs_dir e) r) (docs_dir e)
     = Inr (first_component r \<noteq> ''snippets'' \<or> first_component r = r)
   \<and> (r \<in> set (found e) \<and> (first_component r \<noteq> ''snippets'' \<or> first_component r = r)
        \<and> is_readable e (join_path (docs_dir e) r)
      \<longrightarrow> (\<exists>out st. compile_docs e = Inr (out, st)
             \<and> section_of e (join_path (docs_dir e) r) \<in> set (sections st)))"
proof -
  have inc: "should_include_file (join_path (docs_dir e) r) (docs_dir e)
     = Inr (first_component r \<noteq> ''snippets'' \<or> first_component r = r)"
    unfolding should_include_under first_component_snippets by simp
  have "section_of e (join_path (docs_dir e) r) \<in> set (map (section_of e) (section_paths e))"
    if "r \<in> set (found e)" "first_component r \<noteq> ''snippets'' \<or> first_component r = r"
       "is_readable e (join_path (docs_dir e) r)"
  proof -
    from that(2) inc have "is_included e (join_path (docs_dir e) r)"
      by (simp add: is_included_def)
    with that have "join_path (docs_dir e) r \<in> set (section_paths e)"
      by (simp add: section_paths_def mdx_files_def)
    then show ?thesis by simp
  qed
  with inc show ?thesis
    unfolding compile_docs_result by simp
qed

theorem only_snippets_directory_witness:
  "should_include_file ''/d/snippets-extra/page.mdx'' ''/d'' = Inr True
   \<and> should_include_file ''/d/snippets.mdx'' ''/d'' = Inr True
   \<and> should_include_file ''/d/snippets/s.mdx'' ''/d'' = Inr False
   \<and> (\<exists>out st. compile_docs near_snippets_env = Inr (out, st)
         \<and> section_of near_snippets_env ''/d/snippets-extra/page.mdx'' \<in> set (sections st))"
proof -
  have d: "docs_dir near_snippets_env = ''/d''"
    by (simp add: near_snippets_env_def)
  have j: "join_path ''/d'' ''snippets-extra/page.mdx'' = ''/d/snippets-extra/page.mdx''"
    "join_path ''/d'' ''snippets.mdx'' = ''/d/snippets.mdx''"
    "join_path ''/d'' ''snippets/s.mdx'' = ''/d/snippets/s.mdx''"
    by (simp_all add: join_path_def)
  have f: "first_component ''snippets-extra/page.mdx'' = ''snippets-extra''"
    "first_component ''snippets.mdx'' = ''snippets.mdx''"
    "first_component ''snippets/s.mdx'' = ''snippets''"
    by (simp_all add: first_component_def)
  have h: "''snippets-extra/page.mdx'' \<in> set (found near_snippets_env)"
    "is_readable near_snippets_env ''/d/snippets-extra/page.mdx''"
    by (simp_all add: near_snippets_env_def is_readable_def)
  show ?thesis
    using only_snippets_directory [of near_snippets_env "''snippets-extra/page.mdx''"]
      only_snippets_directory [of near_snippets_env "''snippets.mdx''"]
      only_snippets_directory [of near_snippets_env "''snippets/s.mdx''"]
    unfolding d j f using h by simp
qed

section \<open>The matcher\<close>

text \<open>A match splits the text: one piece for each atom, then the rest.\<close>

lemma rx_match_sound:
  "rx_match as s = Some (ps, r) \<Longrightarrow> length ps = length as \<and> concat ps @ r = s"
proof (induction as s arbitrary: ps r rule: rx_match.induct)
  case (1 s)
  then show ?case by simp
next
  case (2 p as)
  then show ?case by simp
next
  case (3 p as x xs)
  then show ?case by (auto simp: add_piece_def split: if_splits)
next
  case (4 p as)
  then show ?case by (auto simp: add_piece_def)
next
  case (5 p as x xs)
  then show ?case by (auto simp: add_piece_def split: if_splits option.splits)
next
  case (6 p as)
  then show ?case by (auto simp: add_piece_def)
next
  case (7 p as x xs)
  then show ?case
    by (auto simp: add_piece_def add_char_def split: if_splits option.splits)
       (case_tac a; simp)+
next
  case (8 p as)
  then show ?case by simp
next
  case (9 p as x xs)
  then show ?case
    by (auto simp: add_char_def split: if_splits) (case_tac a; simp)+
next
  case (10 p as)
  then show ?case by (auto simp: add_piece_def)
next
  case (11 p as x xs)
  then show ?case
    by (auto simp: add_piece_def add_char_def split: if_splits option.splits)
       (case_tac a; simp)+
next
  case (12 bs as s)
  then show ?case
    by (auto simp: add_piece_def group_pieces_def split: option.splits)
       (metis append_take_drop_id concat_append)+
next
  case (13 as s)
  then show ?case by (auto simp: add_piece_def split: if_splits)
qed

text \<open>What a match of a pattern says about the match of the rest of the pattern.\<close>

lemma rx_match_Chr_Some:
  "rx_match (Chr p # as) s = Some (ps, r)
     \<Longrightarrow> \<exists>x s' qs. s = x # s' \<and> p x \<and> ps = [x] # qs \<and> rx_match as s' = Some (qs, r)"
  by (cases s) (auto simp: add_piece_def split: if_splits)

lemma rx_match_lit_Some:
  "rx_match (lit u @ as) s = Some (ps, r)
     \<Longrightarrow> \<exists>s' qs. s = u @ s' \<and> ps = map (\<lambda>x. [x]) u @ qs \<and> rx_match as s' = Some (qs, r)"
proof (induction u arbitrary: s ps)
  case Nil
  then show ?case by (simp add: lit_def)
next
  case (Cons a u)
  from Cons.prems have "rx_match (Chr (is_char a) # lit u @ as) s = Some (ps, r)"
    by (simp add: lit_def)
  from rx_match_Chr_Some [OF this] obtain x s1 q1 where
    1: "s = x # s1" "is_char a x" "ps = [x] # q1" "rx_match (lit u @ as) s1 = Some (q1, r)"
    by blast
  from Cons.IH [OF 1(4)] obtain s' qs where
    "s1 = u @ s'" "q1 = map (\<lambda>x. [x]) u @ qs" "rx_match as s' = Some (qs, r)"
    by blast
  with 1 show ?case by (simp add: is_char_def)
qed

lemma rx_match_Star_Some:
  "rx_match (Star p # as) s = Some (ps, r)
     \<Longrightarrow> \<exists>w qs s'. s = w @ s' \<and> (\<forall>c \<in> set w. p c) \<and> ps = w # qs \<and> rx_match as s' = Some (qs, r)"
proof (induction s arbitrary: ps r)
  case Nil
  then show ?case by (auto simp: add_piece_def)
next
  case (Cons x xs)
  show ?case
  proof (cases "if p x then rx_match (Star p # as) xs else None")
    case None
    with Cons.prems have m: "map_option (add_piece []) (rx_match as (x # xs)) = Some (ps, r)"
      by simp
    then obtain b where b: "rx_match as (x # xs) = Some b" "add_piece [] b = (ps, r)" by auto
    obtain qs r' where "b = (qs, r')" by (cases b)
    with b have "rx_match as (x # xs) = Some (qs, r)" "ps = [] # qs"
      by (simp_all add: add_piece_def)
    then show ?thesis by (intro exI [of _ "[]"] exI [of _ qs] exI [of _ "x # xs"]) simp
  next
    case (Some a)
    obtain qs0 r0 where a: "a = (qs0, r0)" by (cases a)
    from Some a have px: "p x" and inner: "rx_match (Star p # as) xs = Some (qs0, r0)"
      by (simp_all split: if_splits)
    from Cons.prems Some a have res: "ps = (x # hd qs0) # tl qs0" "r = r0"
      by (simp_all add: add_char_def)
    from Cons.IH [OF inner] obtain w qs s' where
      ih: "xs = w @ s'" "\<forall>c \<in> set w. p c" "qs0 = w # qs" "rx_match as s' = Some (qs, r0)"
      by blast
    show ?thesis
      using ih res px by (intro exI [of _ "x # w"] exI [of _ qs] exI [of _ s']) simp
  qed
qed

lemma rx_match_LazyStar_first:
  "rx_match (LazyStar p # as) s = Some (ps, r)
     \<Longrightarrow> \<exists>w qs s'. s = w @ s' \<and> ps = w # qs \<and> rx_match as s' = Some (qs, r)
           \<and> (\<forall>k < length w. rx_match as (drop k s) = None)"
proof (induction s arbitrary: ps r)
  case Nil
  then show ?case by (auto simp: add_piece_def)
next
  case (Cons x xs)
  show ?case
  proof (cases "rx_match as (x # xs)")
    case (Some a)
    obtain qs r' where a: "a = (qs, r')" by (cases a)
    with Some Cons.prems have "ps = [] # qs" "r' = r"
      by (simp_all add: add_piece_def)
    with Some a show ?thesis by (intro exI [of _ "[]"] exI [of _ qs] exI [of _ "x # xs"]) simp
  next
    case None
    with Cons.prems obtain a where inner: "rx_match (LazyStar p # as) xs = Some a" "(ps, r) = add_char x a"
      by (auto split: if_splits)
    obtain qs0 r0 where a: "a = (qs0, r0)" by (cases a)
    from inner a have res: "ps = (x # hd qs0) # tl qs0" "r = r0" by (simp_all add: add_char_def)
    from inner a have "rx_match (LazyStar p # as) xs = Some (qs0, r0)" by simp
    from Cons.IH [OF this] obtain w qs s' where
      ih: "xs = w @ s'" "qs0 = w # qs" "rx_match as s' = Some (qs, r0)"
        "\<forall>k < length w. rx_match as (drop k xs) = None"
      by blast
    have "\<forall>k < length (x # w). rx_match as (drop k (x # xs)) = None"
    proof (intro allI impI)
      fix k assume k: "k < length (x # w)"
      show "rx_match as (drop k (x # xs)) = None"
      proof (cases k)
        case 0
        with None show ?thesis by simp
      next
        case (Suc j)
        with k ih(4) show ?thesis by simp
      qed
    qed
    with ih res show ?thesis
      by (intro exI [of _ "x # w"] exI [of _ qs] exI [of _ s']) simp
  qed
qed

lemma rx_match_Star_total: "rx_match as s \<noteq> None \<Longrightarrow> rx_match (Star p # as) s \<noteq> None"
  by (cases s) (auto split: option.splits)

lemma rx_match_LazyStar_total:
  "rx_match as s \<noteq> None \<Longrightarrow> \<forall>c \<in> set w. p c \<Longrightarrow> rx_match (LazyStar p # as) (w @ s) \<noteq> None"
proof (induction w)
  case Nil
  then show ?case by (cases s) (auto split: option.splits)
next
  case (Cons x w)
  then show ?case by (auto split: option.splits)
qed

lemma rx_match_lit_total: "rx_match as s \<noteq> None \<Longrightarrow> rx_match (lit u @ as) (u @ s) \<noteq> None"
  by (induction u) (auto simp: lit_def is_char_def)

section \<open>Titles\<close>

lemma rx_match_lit_None: "\<not> prefix t s \<Longrightarrow> rx_match (lit t @ as) s = None"
proof (induction t arbitrary: s)
  case Nil
  then show ?case by simp
next
  case (Cons a t)
  show ?case
  proof (cases s)
    case Nil
    then show ?thesis by (simp add: lit_def)
  next
    case (Cons x xs)
    with Cons.prems have "x \<noteq> a \<or> \<not> prefix t xs" by auto
    then show ?thesis
    proof
      assume "x \<noteq> a"
      with Cons show ?thesis by (simp add: lit_def is_char_def)
    next
      assume "\<not> prefix t xs"
      from Cons.IH [OF this] Cons show ?thesis by (simp add: lit_def)
    qed
  qed
qed

lemma split_on_not_Nil: "split_on sep s \<noteq> []"
proof (induction s)
  case Nil
  then show ?case by simp
next
  case (Cons c cs)
  then show ?case by (cases "split_on sep cs") simp_all
qed

lemma split_on_Cons:
  "split_on sep (c # cs) =
     (if c = sep then [] # split_on sep cs
      else (c # hd (split_on sep cs)) # tl (split_on sep cs))"
  using split_on_not_Nil [of sep cs] by (cases "split_on sep cs") simp_all

declare split_on.simps(2) [simp del]

declare split_on_Cons [simp]

lemma hd_split_on: "hd (split_on sep s) = takeWhile (\<lambda>c. c \<noteq> sep) s"
  by (induction s) auto

lemma prefix_first_line:
  assumes "prefix t (s @ u)" and "sep \<notin> set t" and "u = [] \<or> hd u = sep"
  shows "prefix t (takeWhile (\<lambda>c. c \<noteq> sep) (s @ u))"
  using assms
proof (induction t arbitrary: s)
  case Nil
  then show ?case by simp
next
  case (Cons a t)
  show ?case
  proof (cases s)
    case Nil
    with Cons.prems show ?thesis by (cases u) auto
  next
    case (Cons x xs)
    with Cons.prems Cons.IH [of xs] show ?thesis by auto
  qed
qed

lemma title_rx_None: "\<not> prefix ''title:'' s \<Longrightarrow> rx_match title_rx s = None"
  unfolding title_rx_def by (rule rx_match_lit_None)


lemma search_skip_lines:
  assumes "\<forall>l \<in> set (if bol then split_on NL pre else tl (split_on NL pre)). \<not> prefix ''title:'' l"
    and "pre = [] \<or> last pre = NL"
  shows "re_search_bol title_rx bol (pre @ s) = re_search_bol title_rx (if pre = [] then bol else True) s"
  using assms
proof (induction pre arbitrary: bol)
  case Nil
  then show ?case by simp
next
  case (Cons c cs)
  have here: "rx_match title_rx (c # cs @ s) = None" if bol
  proof -
    from that Cons.prems(1) have "\<forall>l \<in> set (split_on NL (c # cs)). \<not> prefix ''title:'' l"
      by (simp only: if_True)
    moreover have "hd (split_on NL (c # cs)) \<in> set (split_on NL (c # cs))"
      using split_on_not_Nil by (rule hd_in_set)
    ultimately have "\<not> prefix ''title:'' (hd (split_on NL (c # cs)))"
      by blast
    then have a: "\<not> prefix ''title:'' (takeWhile (\<lambda>x. x \<noteq> NL) (c # cs))"
      unfolding hd_split_on .
    from Cons.prems(2) have "last (c # cs) = NL" by simp
    then obtain ys where ys: "c # cs = ys @ [NL]"
      by (metis append_butlast_last_id list.distinct(1))
    have "takeWhile (\<lambda>x. x \<noteq> NL) (ys @ NL # s) = takeWhile (\<lambda>x. x \<noteq> NL) (ys @ [NL])"
      by (induction ys) auto
    with a ys have "\<not> prefix ''title:'' (takeWhile (\<lambda>x. x \<noteq> NL) (ys @ NL # s))" by simp
    then have "\<not> prefix ''title:'' (ys @ NL # s)"
      using prefix_first_line [of "''title:''" ys "NL # s" NL] by auto
    then have none: "rx_match title_rx (ys @ NL # s) = None"
      by (rule title_rx_None)
    have "(c # cs) @ s = (ys @ [NL]) @ s"
      by (simp only: ys)
    then have eq: "c # cs @ s = ys @ NL # s"
      by simp
    show ?thesis
      unfolding eq by (rule none)
  qed
  show ?case
  proof (cases "cs = []")
    case True
    with Cons.prems(2) have "c = NL" by simp
    with True here show ?thesis by auto
  next
    case False
    have "\<forall>l \<in> set (if c = NL then split_on NL cs else tl (split_on NL cs)). \<not> prefix ''title:'' l"
      using Cons.prems(1) split_on_not_Nil [of NL cs]
      by (cases "split_on NL cs") (auto split: if_splits)
    moreover from False Cons.prems(2) have "cs = [] \<or> last cs = NL" by simp
    ultimately have "re_search_bol title_rx (c = NL) (cs @ s) = re_search_bol title_rx True s"
      using Cons.IH [of "c = NL"] False by simp
    with here show ?thesis by auto
  qed
qed





lemma dropWhile_stop: "\<forall>c \<in> set xs. P c \<Longrightarrow> \<not> P y \<Longrightarrow> dropWhile P (xs @ y # ys) = y # ys"
  by (induction xs) auto


lemma star_eol_pieces:
  "rx_match [Star p, Eol] s = Some (ps, r) \<Longrightarrow> \<exists>w. ps = [w, []]"
proof (induction s arbitrary: ps r)
  case Nil
  then show ?case by (auto simp: add_piece_def)
next
  case (Cons x xs)
  show ?case
  proof (cases "p x \<and> rx_match [Star p, Eol] xs \<noteq> None")
    case True
    then obtain qs t where inner: "rx_match [Star p, Eol] xs = Some (qs, t)" by auto
    from Cons.IH [OF this] obtain w where "qs = [w, []]" by blast
    with True inner Cons.prems show ?thesis by (auto simp: add_char_def)
  next
    case False
    with Cons.prems show ?thesis
      by (auto simp: add_piece_def split: if_splits option.splits)
  qed
qed

lemma spaces_then_eol:
  assumes "post = [] \<or> hd post = NL"
  shows "\<exists>w r. rx_match [Star is_space, Eol] post = Some ([w, []], r)"
proof -
  have "rx_match [Star is_space, Eol] post \<noteq> None"
  proof (cases post)
    case Nil
    then show ?thesis by simp
  next
    case (Cons x xs)
    with assms have "x = NL" by simp
    with Cons show ?thesis by (simp add: is_space_def split: option.splits)
  qed
  then obtain ps r where "rx_match [Star is_space, Eol] post = Some (ps, r)" by auto
  with star_eol_pieces [OF this] show ?thesis by auto
qed

lemma quick_start_line_match:
  assumes "post = [] \<or> hd post = NL"
  shows "\<exists>qs r. rx_match title_rx (quick_start_line @ post) = Some (qs, r) \<and> qs ! 8 = ''Quick Start''"
proof -
  from spaces_then_eol [OF assms] obtain w r where
    "rx_match [Star is_space, Eol] post = Some ([w, []], r)" by blast
  then show ?thesis
    by (simp add: title_rx_def quick_start_line_def lit_def is_char_def is_space_def is_quote_def
        title_char_def add_piece_def add_char_def)
qed



text \<open>The lines of a text that is put together from two texts, and back.\<close>

lemma split_on_append: "split_on sep (a @ sep # b) = split_on sep a @ split_on sep b"
  by (induction a) (auto simp: split_on_not_Nil)

lemma split_on_no_sep: "l \<in> set (split_on sep s) \<Longrightarrow> sep \<notin> set l"
proof (induction s arbitrary: l)
  case Nil
  then show ?case by simp
next
  case (Cons c cs)
  have ne: "split_on sep cs \<noteq> []" by (rule split_on_not_Nil)
  show ?case
  proof (cases "c = sep")
    case True
    with Cons show ?thesis by auto
  next
    case False
    with Cons.prems have "l = c # hd (split_on sep cs) \<or> l \<in> set (tl (split_on sep cs))" by simp
    then show ?thesis
    proof
      assume l: "l = c # hd (split_on sep cs)"
      from ne have "hd (split_on sep cs) \<in> set (split_on sep cs)" by (rule hd_in_set)
      with Cons.IH have "sep \<notin> set (hd (split_on sep cs))" .
      with l False show ?thesis by auto
    next
      assume "l \<in> set (tl (split_on sep cs))"
      with ne have "l \<in> set (split_on sep cs)" by (meson list.set_sel(2))
      with Cons.IH show ?thesis .
    qed
  qed
qed

lemma split_on_single: "split_on sep s = [l] \<Longrightarrow> s = l"
proof (induction s arbitrary: l)
  case Nil
  then show ?case by simp
next
  case (Cons c cs)
  have ne: "split_on sep cs \<noteq> []" by (rule split_on_not_Nil)
  show ?case
  proof (cases "c = sep")
    case True
    with Cons.prems ne show ?thesis by simp
  next
    case False
    with Cons.prems have l: "l = c # hd (split_on sep cs)" and "tl (split_on sep cs) = []" by simp_all
    with ne have "split_on sep cs = [hd (split_on sep cs)]" by (cases "split_on sep cs") simp_all
    from Cons.IH [OF this] l show ?thesis by simp
  qed
qed

lemma split_on_cut:
  "split_on sep s = xs @ ys \<Longrightarrow> xs \<noteq> [] \<Longrightarrow> ys \<noteq> []
     \<Longrightarrow> \<exists>a b. s = a @ sep # b \<and> split_on sep a = xs \<and> split_on sep b = ys"
proof (induction s arbitrary: xs)
  case Nil
  then show ?case by (cases xs; cases ys) simp_all
next
  case (Cons c cs)
  have ne: "split_on sep cs \<noteq> []" by (rule split_on_not_Nil)
  from Cons.prems(2) obtain x xs' where xs: "xs = x # xs'" by (cases xs) auto
  show ?case
  proof (cases "c = sep")
    case True
    with Cons.prems(1) xs have x: "x = []" and rest: "split_on sep cs = xs' @ ys" by simp_all
    show ?thesis
    proof (cases "xs' = []")
      case True
      with rest x xs \<open>c = sep\<close> show ?thesis
        by (intro exI [of _ "[]"] exI [of _ cs]) simp
    next
      case False
      from Cons.IH [OF rest False Cons.prems(3)] obtain a b where
        "cs = a @ sep # b" "split_on sep a = xs'" "split_on sep b = ys" by blast
      with x xs \<open>c = sep\<close> show ?thesis
        by (intro exI [of _ "sep # a"] exI [of _ b]) simp
    qed
  next
    case False
    with Cons.prems(1) xs have x: "x = c # hd (split_on sep cs)" and t: "tl (split_on sep cs) = xs' @ ys"
      by simp_all
    from ne t have "split_on sep cs = (hd (split_on sep cs) # xs') @ ys"
      by (cases "split_on sep cs") simp_all
    from Cons.IH [OF this _ Cons.prems(3)] obtain a b where
      ab: "cs = a @ sep # b" "split_on sep a = hd (split_on sep cs) # xs'" "split_on sep b = ys"
      by blast
    with x xs False show ?thesis
      by (intro exI [of _ "c # a"] exI [of _ b]) simp
  qed
qed

lemma split_on_prepend:
  "sep \<notin> set u \<Longrightarrow> split_on sep (u @ w) = (u @ hd (split_on sep w)) # tl (split_on sep w)"
  by (induction u) (auto simp: split_on_not_Nil)

lemma split_on_subset: "l \<in> set (split_on sep s) \<Longrightarrow> set l \<subseteq> set s"
proof (induction s arbitrary: l)
  case Nil
  then show ?case by simp
next
  case (Cons c cs)
  have ne: "split_on sep cs \<noteq> []" by (rule split_on_not_Nil)
  then have h: "hd (split_on sep cs) \<in> set (split_on sep cs)" by (rule hd_in_set)
  have t: "\<And>x. x \<in> set (tl (split_on sep cs)) \<Longrightarrow> x \<in> set (split_on sep cs)"
    using ne by (meson list.set_sel(2))
  show ?case
  proof (cases "c = sep")
    case True
    with Cons.prems have "l = [] \<or> l \<in> set (split_on sep cs)" by simp
    with Cons.IH show ?thesis by auto
  next
    case False
    with Cons.prems have "l = c # hd (split_on sep cs) \<or> l \<in> set (tl (split_on sep cs))" by simp
    then show ?thesis
    proof
      assume "l = c # hd (split_on sep cs)"
      with Cons.IH [OF h] show ?thesis by auto
    next
      assume "l \<in> set (tl (split_on sep cs))"
      from Cons.IH [OF t [OF this]] show ?thesis by auto
    qed
  qed
qed

lemma split_on_first:
  "split_on sep b = l # ys \<Longrightarrow> \<exists>post. b = l @ post \<and> (post = [] \<or> hd post = sep)"
proof -
  assume a: "split_on sep b = l # ys"
  have "hd (split_on sep b) = takeWhile (\<lambda>c. c \<noteq> sep) b" by (rule hd_split_on)
  with a have l: "l = takeWhile (\<lambda>c. c \<noteq> sep) b" by simp
  have "dropWhile (\<lambda>c. c \<noteq> sep) b = [] \<or> hd (dropWhile (\<lambda>c. c \<noteq> sep) b) = sep"
    using hd_dropWhile [of "\<lambda>c. c \<noteq> sep" b] by auto
  moreover have "b = l @ dropWhile (\<lambda>c. c \<noteq> sep) b" unfolding l by simp
  ultimately show ?thesis by blast
qed

lemma split_on_line:
  assumes "split_on sep s = xs @ l # ys"
  shows "\<exists>P post. s = P @ l @ post \<and> (P = [] \<or> last P = sep) \<and> (post = [] \<or> hd post = sep)
           \<and> set (split_on sep P) \<subseteq> insert [] (set xs)"
proof (cases "xs = []")
  case True
  with assms have "split_on sep s = l # ys" by simp
  from split_on_first [OF this] obtain post where "s = l @ post" "post = [] \<or> hd post = sep"
    by blast
  then show ?thesis by (intro exI [of _ "[]"] exI [of _ post]) simp
next
  case False
  from split_on_cut [OF assms False] obtain a b where
    ab: "s = a @ sep # b" "split_on sep a = xs" "split_on sep b = l # ys"
    by blast
  from split_on_first [OF ab(3)] obtain post where post: "b = l @ post" "post = [] \<or> hd post = sep"
    by blast
  have "split_on sep (a @ sep # []) = split_on sep a @ split_on sep []" by (rule split_on_append)
  with ab(2) have sp: "split_on sep (a @ [sep]) = xs @ [[]]" by simp
  show ?thesis
    using ab(1) post sp by (intro exI [of _ "a @ [sep]"] exI [of _ post]) auto
qed

text \<open>The header pattern, read off a match.\<close>

lemma closing_total:
  "rx_match (Chr (is_char NL) # lit ''---'' @ [Star is_space, Chr (is_char NL)]) (NL # ''---'' @ NL # z)
     \<noteq> None"
proof -
  have "rx_match [Chr (is_char NL)] (NL # z) \<noteq> None" by (simp add: is_char_def add_piece_def)
  then have "rx_match (Star is_space # [Chr (is_char NL)]) (NL # z) \<noteq> None"
    by (rule rx_match_Star_total)
  then have "rx_match (lit ''---'' @ [Star is_space, Chr (is_char NL)]) (''---'' @ NL # z) \<noteq> None"
    by (rule rx_match_lit_total)
  then show ?thesis by (simp add: is_char_def)
qed

lemma frontmatter_shape:
  assumes "rx_match frontmatter_rx content = Some (ps, r)"
  shows "\<exists>ws1 ws2. content = ''---'' @ ws1 @ NL # (ps ! 5) @ NL # ''---'' @ ws2 @ NL # r
           \<and> (\<forall>c \<in> set ws1. is_space c) \<and> (\<forall>c \<in> set ws2. is_space c)
           \<and> (\<forall>k < length (ps ! 5).
                 rx_match (Chr (is_char NL) # lit ''---'' @ [Star is_space, Chr (is_char NL)])
                   (drop k ((ps ! 5) @ NL # ''---'' @ ws2 @ NL # r)) = None)"
proof -
  let ?closing = "Chr (is_char NL) # lit ''---'' @ [Star is_space, Chr (is_char NL)]"
  have rx: "frontmatter_rx
      = lit ''---'' @ (Star is_space # Chr (is_char NL) # LazyStar any_char # ?closing)"
    by (simp add: frontmatter_rx_def)
  from assms rx_match_lit_Some [of "''---''" _ content ps r] rx obtain s1 q1 where
    1: "content = ''---'' @ s1" "ps = map (\<lambda>x. [x]) ''---'' @ q1"
       "rx_match (Star is_space # Chr (is_char NL) # LazyStar any_char # ?closing) s1 = Some (q1, r)"
    by metis
  from rx_match_Star_Some [OF 1(3)] obtain ws1 q2 s2 where
    2: "s1 = ws1 @ s2" "\<forall>c \<in> set ws1. is_space c" "q1 = ws1 # q2"
       "rx_match (Chr (is_char NL) # LazyStar any_char # ?closing) s2 = Some (q2, r)"
    by blast
  from rx_match_Chr_Some [OF 2(4)] obtain x s3 q3 where
    3: "s2 = x # s3" "is_char NL x" "q2 = [x] # q3"
       "rx_match (LazyStar any_char # ?closing) s3 = Some (q3, r)"
    by blast
  from rx_match_LazyStar_first [OF 3(4)] obtain g q4 s4 where
    4: "s3 = g @ s4" "q3 = g # q4" "rx_match ?closing s4 = Some (q4, r)"
       "\<forall>k < length g. rx_match ?closing (drop k s3) = None"
    by blast
  from rx_match_Chr_Some [OF 4(3)] obtain y s5 q5 where
    5: "s4 = y # s5" "is_char NL y" "rx_match (lit ''---'' @ [Star is_space, Chr (is_char NL)]) s5 = Some (q5, r)"
    by blast
  from rx_match_lit_Some [OF 5(3)] obtain s6 q6 where
    6: "s5 = ''---'' @ s6" "rx_match [Star is_space, Chr (is_char NL)] s6 = Some (q6, r)"
    by blast
  from rx_match_Star_Some [OF 6(2)] obtain ws2 q7 s7 where
    7: "s6 = ws2 @ s7" "\<forall>c \<in> set ws2. is_space c" "rx_match [Chr (is_char NL)] s7 = Some (q7, r)"
    by blast
  from rx_match_Chr_Some [OF 7(3)] obtain z s8 q8 where
    8: "s7 = z # s8" "is_char NL z" "rx_match [] s8 = Some (q8, r)"
    by blast
  from 8(3) have s8: "s8 = r" by simp
  from 1(2) 2(3) 3(3) 4(2) have g: "ps ! 5 = g" by simp
  from 3(2) 5(2) 8(2) have nl: "x = NL" "y = NL" "z = NL" by (simp_all add: is_char_def)
  have s3: "s3 = g @ NL # ''---'' @ ws2 @ NL # r"
    unfolding 4(1) 5(1) 6(1) 7(1) 8(1) s8 nl by simp
  have "content = ''---'' @ ws1 @ NL # g @ NL # ''---'' @ ws2 @ NL # r"
    unfolding 1(1) 2(1) 3(1) s3 nl by simp
  with 2(2) 7(2) 4(4) show ?thesis
    unfolding g s3 by blast
qed

lemma no_closing_inside:
  assumes "rx_match frontmatter_rx content = Some (ps, r)"
  shows "''---'' \<notin> set (tl (split_on NL (ps ! 5)))"
proof
  let ?g = "ps ! 5"
  assume "''---'' \<in> set (tl (split_on NL ?g))"
  then obtain u v where uv: "tl (split_on NL ?g) = u @ ''---'' # v" by (meson split_list)
  have "split_on NL ?g \<noteq> []" by (rule split_on_not_Nil)
  with uv have "split_on NL ?g = (hd (split_on NL ?g) # u) @ (''---'' # v)"
    by (cases "split_on NL ?g") simp_all
  from split_on_cut [OF this] obtain a b where
    ab: "?g = a @ NL # b" "split_on NL b = ''---'' # v"
    by blast
  from split_on_first [OF ab(2)] obtain post where post: "b = ''---'' @ post" "post = [] \<or> hd post = NL"
    by blast
  from frontmatter_shape [OF assms] obtain ws1 ws2 where
    "content = ''---'' @ ws1 @ NL # ?g @ NL # ''---'' @ ws2 @ NL # r"
    and lazy: "\<forall>k < length ?g.
             rx_match (Chr (is_char NL) # lit ''---'' @ [Star is_space, Chr (is_char NL)])
               (drop k (?g @ NL # ''---'' @ ws2 @ NL # r)) = None"
    by blast
  from ab(1) have k: "length a < length ?g" by simp
  from post(2) obtain z where z: "post @ NL # ''---'' @ ws2 @ NL # r = NL # z"
    by (cases post) auto
  have "drop (length a) (?g @ NL # ''---'' @ ws2 @ NL # r)
      = NL # ''---'' @ (post @ NL # ''---'' @ ws2 @ NL # r)"
    by (subst ab(1)) (simp add: post(1))
  then have eq: "drop (length a) (?g @ NL # ''---'' @ ws2 @ NL # r) = NL # ''---'' @ NL # z"
    unfolding z .
  from lazy k have none:
    "rx_match (Chr (is_char NL) # lit ''---'' @ [Star is_space, Chr (is_char NL)])
       (drop (length a) (?g @ NL # ''---'' @ ws2 @ NL # r)) = None"
    by blast
  from none [unfolded eq] closing_total [of z] show False by blast
qed

lemma matched_lines:
  assumes "rx_match frontmatter_rx content = Some (ps, r)"
  shows "\<exists>a0 as b0 bs.
           split_on NL content
             = (''---'' @ a0) # as @ split_on NL (ps ! 5) @ (''---'' @ b0) # bs @ split_on NL r
           \<and> (\<forall>c \<in> set a0. is_space c) \<and> (\<forall>l \<in> set as. \<forall>c \<in> set l. is_space c)
           \<and> (\<forall>c \<in> set b0. is_space c)"
proof -
  define hy where "hy = ''---''"
  from frontmatter_shape [OF assms] obtain ws1 ws2 where
    c: "content = hy @ ws1 @ NL # (ps ! 5) @ NL # hy @ ws2 @ NL # r"
    and w1: "\<forall>c \<in> set ws1. is_space c" and w2: "\<forall>c \<in> set ws2. is_space c"
    unfolding hy_def by blast
  have "NL \<notin> set hy" by (simp add: hy_def)
  then have pre: "\<And>w. split_on NL (hy @ w) = (hy @ hd (split_on NL w)) # tl (split_on NL w)"
    by (rule split_on_prepend)
  have "content = (hy @ ws1) @ NL # ((ps ! 5) @ NL # ((hy @ ws2) @ NL # r))"
    unfolding c by simp
  then have "split_on NL content
      = split_on NL (hy @ ws1) @ split_on NL (ps ! 5) @ split_on NL (hy @ ws2) @ split_on NL r"
    by (simp only: split_on_append)
  then have lines: "split_on NL content
      = (hy @ hd (split_on NL ws1)) # tl (split_on NL ws1) @ split_on NL (ps ! 5)
        @ (hy @ hd (split_on NL ws2)) # tl (split_on NL ws2) @ split_on NL r"
    by (simp only: pre append_Cons)
  have white: "\<And>w l. \<forall>c \<in> set w. is_space c \<Longrightarrow> l \<in> set (split_on NL w) \<Longrightarrow> \<forall>c \<in> set l. is_space c"
    using split_on_subset by blast
  have hd_in: "\<And>w. hd (split_on NL w) \<in> set (split_on NL w)"
    by (rule hd_in_set) (rule split_on_not_Nil)
  have tl_in: "\<And>w l. l \<in> set (tl (split_on NL w)) \<Longrightarrow> l \<in> set (split_on NL w)"
    using split_on_not_Nil by (meson list.set_sel(2))
  from white [OF w1 hd_in] have a0: "\<forall>c \<in> set (hd (split_on NL ws1)). is_space c" .
  from white [OF w2 hd_in] have b0: "\<forall>c \<in> set (hd (split_on NL ws2)). is_space c" .
  from white [OF w1 tl_in] have as: "\<forall>l \<in> set (tl (split_on NL ws1)). \<forall>c \<in> set l. is_space c"
    by blast
  from lines a0 as b0 show ?thesis unfolding hy_def by blast
qed

lemma padded_delimiter_hyphens:
  "padded_delimiter (''---'' @ w) \<longleftrightarrow> w \<noteq> [] \<and> (\<forall>c \<in> set w. is_space c)"
  by (simp add: padded_delimiter_def list_all_iff)

lemma white_not_delimiter: "\<forall>c \<in> set l. is_space c \<Longrightarrow> l \<noteq> ''---''"
proof
  assume w: "\<forall>c \<in> set l. is_space c" and "l = ''---''"
  then have "is_space CHR ''-''" by simp
  then show False by (simp add: is_space_def)
qed

lemma white_not_title: "\<forall>c \<in> set l. is_space c \<Longrightarrow> \<not> title_field l"
proof
  assume w: "\<forall>c \<in> set l. is_space c" and "title_field l"
  then obtain r where "l = ''title:'' @ r" by (auto simp: title_field_def elim: prefixE)
  then have "CHR ''t'' \<in> set l" by simp
  with w have "is_space CHR ''t''" by blast
  then show False by (simp add: is_space_def)
qed


text \<open>A header block that is followed by a newline is matched by the header pattern.\<close>

lemma header_total:
  assumes hb: "header_block content = Some (body, behind)"
    and body: "body \<noteq> []" and behind: "behind \<noteq> []"
  shows "rx_match frontmatter_rx content \<noteq> None"
proof -
  let ?P = "\<lambda>l. l \<noteq> ''---''"
  let ?closing = "Chr (is_char NL) # lit ''---'' @ [Star is_space, Chr (is_char NL)]"
  obtain first rest where lines: "split_on NL content = first # rest"
    using split_on_not_Nil [of NL content] by (cases "split_on NL content") auto
  from hb lines have first: "first = ''---''" and mem: "''---'' \<in> set rest"
    and b: "body = takeWhile ?P rest" and bh: "behind = drop 1 (dropWhile ?P rest)"
    by (simp_all add: header_block_def split: if_splits)
  from mem have ne: "dropWhile ?P rest \<noteq> []" by (auto simp: dropWhile_eq_Nil_conv)
  from hd_dropWhile [OF ne] have "hd (dropWhile ?P rest) = ''---''" by blast
  with ne bh have "dropWhile ?P rest = ''---'' # behind"
    by (cases "dropWhile ?P rest") simp_all
  with takeWhile_dropWhile_id [of ?P rest] b have rest: "rest = body @ ''---'' # behind" by simp
  from lines first rest have "split_on NL content = [''---''] @ (body @ ''---'' # behind)" by simp
  from split_on_cut [OF this] obtain a1 b1 where
    1: "content = a1 @ NL # b1" "split_on NL a1 = [''---'']" "split_on NL b1 = body @ ''---'' # behind"
    by blast
  from split_on_cut [OF 1(3) body] obtain g b2 where
    2: "b1 = g @ NL # b2" "split_on NL b2 = ''---'' # behind"
    by blast
  from 2(2) have "split_on NL b2 = [''---''] @ behind" by simp
  from split_on_cut [OF this _ behind] obtain a3 r where
    3: "b2 = a3 @ NL # r" "split_on NL a3 = [''---'']"
    by blast
  from split_on_single [OF 1(2)] split_on_single [OF 3(2)] have a: "a1 = ''---''" "a3 = ''---''" .
  have c: "content = ''---'' @ (NL # g @ (NL # ''---'' @ NL # r))"
    unfolding 1(1) 2(1) 3(1) a by simp
  have "rx_match ?closing (NL # ''---'' @ NL # r) \<noteq> None" by (rule closing_total)
  then have "rx_match (LazyStar any_char # ?closing) (g @ (NL # ''---'' @ NL # r)) \<noteq> None"
    by (rule rx_match_LazyStar_total) (simp add: any_char_def)
  then have "rx_match (Chr (is_char NL) # LazyStar any_char # ?closing) (NL # g @ (NL # ''---'' @ NL # r))
      \<noteq> None"
    by (simp add: is_char_def)
  then have "rx_match (Star is_space # Chr (is_char NL) # LazyStar any_char # ?closing)
      (NL # g @ (NL # ''---'' @ NL # r)) \<noteq> None"
    by (rule rx_match_Star_total)
  then have total: "rx_match (lit ''---'' @ (Star is_space # Chr (is_char NL) # LazyStar any_char # ?closing))
      (''---'' @ (NL # g @ (NL # ''---'' @ NL # r))) \<noteq> None"
    by (rule rx_match_lit_total)
  have rx: "frontmatter_rx
      = lit ''---'' @ (Star is_space # Chr (is_char NL) # LazyStar any_char # ?closing)"
    by (simp add: frontmatter_rx_def)
  show ?thesis unfolding c rx by (rule total)
qed

text \<open>
  The title line \<open>title: "Quick Start"\<close> of a header block, with no title line and no line
  of three hyphens and white space before it, is the first title line of what the header
  pattern takes as the header.
\<close>

lemma quick_start_found:
  assumes hb: "header_block content = Some (pre @ quick_start_line # post, behind)"
    and behind: "behind \<noteq> []"
    and nt: "\<not> list_ex title_field pre" and np: "\<not> list_ex padded_delimiter pre"
  shows "\<exists>ps r qs r'. rx_match frontmatter_rx content = Some (ps, r)
           \<and> re_search_bol title_rx True (ps ! 5) = Some (qs, r') \<and> qs ! 8 = ''Quick Start''"
proof -
  let ?P = "\<lambda>l. l \<noteq> ''---''"
  let ?N = "\<lambda>l. \<not> title_field l"
  let ?q = quick_start_line
  from header_total [OF hb _ behind] obtain ps r where
    m: "rx_match frontmatter_rx content = Some (ps, r)" by auto
  let ?G = "split_on NL (ps ! 5)"
  from matched_lines [OF m] obtain a0 as b0 bs where
    lines: "split_on NL content = (''---'' @ a0) # as @ ?G @ (''---'' @ b0) # bs @ split_on NL r"
    and as: "\<forall>l \<in> set as. \<forall>c \<in> set l. is_space c"
    and b0: "\<forall>c \<in> set b0. is_space c"
    by blast
  define tail where "tail = (''---'' @ b0) # bs @ split_on NL r"
  define rest where "rest = as @ ?G @ tail"
  have "header_block content
      = (if a0 = [] \<and> ''---'' \<in> set rest
         then Some (takeWhile ?P rest, drop 1 (dropWhile ?P rest)) else None)"
    by (simp add: header_block_def lines rest_def tail_def)
  with hb have body: "pre @ ?q # post = takeWhile ?P rest" by (simp split: if_splits)
  have tq: "title_field ?q" by (simp add: title_field_def quick_start_line_def)
  have preN: "\<And>l. l \<in> set pre \<Longrightarrow> ?N l" using nt by (simp add: list_ex_iff)
  have asP: "\<And>l. l \<in> set as \<Longrightarrow> ?P l" using as white_not_delimiter by blast
  have asN: "\<And>l. l \<in> set as \<Longrightarrow> ?N l" using as white_not_title by blast
  obtain g0 gs where G: "?G = g0 # gs" using split_on_not_Nil [of NL "ps ! 5"] by (cases ?G) auto
  from no_closing_inside [OF m] G have gs: "''---'' \<notin> set gs" by simp
  have "g0 \<noteq> ''---''"
  proof
    assume g0: "g0 = ''---''"
    have "takeWhile ?P ((''---'' # gs) @ tail) = []" by simp
    moreover have "takeWhile ?P (as @ (''---'' # gs) @ tail) = as @ takeWhile ?P ((''---'' # gs) @ tail)"
      by (rule takeWhile_append2) (rule asP)
    ultimately have "takeWhile ?P rest = as" unfolding rest_def G g0 by simp
    with body have "?q \<in> set as" by (metis in_set_conv_decomp)
    from asN [OF this] tq show False ..
  qed
  with gs G have GP: "\<And>l. l \<in> set (as @ ?G) \<Longrightarrow> ?P l" using asP by auto
  have "rest = (as @ ?G) @ tail" by (simp add: rest_def)
  moreover have "takeWhile ?P ((as @ ?G) @ tail) = (as @ ?G) @ takeWhile ?P tail"
    by (rule takeWhile_append2) (rule GP)
  ultimately have "takeWhile ?P rest = (as @ ?G) @ takeWhile ?P tail" by (simp only:)
  with body have E: "pre @ ?q # post = as @ ?G @ takeWhile ?P tail" by simp
  have left_take: "takeWhile ?N (pre @ ?q # post) = pre"
    using preN tq by simp
  have left_drop: "dropWhile ?N (pre @ ?q # post) = ?q # post"
    using preN tq by simp
  have ex: "\<exists>l \<in> set ?G. title_field l"
  proof (rule ccontr)
    assume "\<not> (\<exists>l \<in> set ?G. title_field l)"
    then have GN: "\<And>l. l \<in> set (as @ ?G) \<Longrightarrow> ?N l" using asN by auto
    show False
    proof (cases "b0 = []")
      case True
      then have "takeWhile ?P tail = []" by (simp add: tail_def)
      with E have "?q \<in> set (as @ ?G)" by (metis append_Nil2 in_set_conv_decomp)
      from GN [OF this] tq show False ..
    next
      case False
      have pd: "padded_delimiter (''---'' @ b0)"
        using False b0 by (simp only: padded_delimiter_hyphens) blast
      have nd: "?N (''---'' @ b0)" by (simp add: title_field_def)
      from False have "takeWhile ?P tail = (''---'' @ b0) # takeWhile ?P (bs @ split_on NL r)"
        by (simp add: tail_def)
      with E have "pre @ ?q # post = (as @ ?G) @ (''---'' @ b0) # takeWhile ?P (bs @ split_on NL r)"
        by simp
      then have "takeWhile ?N (pre @ ?q # post)
          = takeWhile ?N ((as @ ?G) @ (''---'' @ b0) # takeWhile ?P (bs @ split_on NL r))"
        by (simp only:)
      also have "\<dots> = (as @ ?G) @ takeWhile ?N ((''---'' @ b0) # takeWhile ?P (bs @ split_on NL r))"
        by (rule takeWhile_append2) (rule GN)
      also have "\<dots> = (as @ ?G) @ (''---'' @ b0) # takeWhile ?N (takeWhile ?P (bs @ split_on NL r))"
        using nd by simp
      finally have "(''---'' @ b0) \<in> set pre" unfolding left_take by simp
      with np pd show False by (auto simp: list_ex_iff)
    qed
  qed
  then obtain l where l: "l \<in> set ?G" "\<not> ?N l" by blast
  have "dropWhile ?N (as @ ?G @ takeWhile ?P tail) = dropWhile ?N (?G @ takeWhile ?P tail)"
    by (rule dropWhile_append2) (rule asN)
  also have "\<dots> = dropWhile ?N ?G @ takeWhile ?P tail"
    using l by (rule dropWhile_append1)
  finally have "?q # post = dropWhile ?N ?G @ takeWhile ?P tail"
    using left_drop E by simp
  moreover from l have "dropWhile ?N ?G \<noteq> []" by (auto simp: dropWhile_eq_Nil_conv)
  ultimately have "hd (dropWhile ?N ?G) = ?q" by (cases "dropWhile ?N ?G") simp_all
  with \<open>dropWhile ?N ?G \<noteq> []\<close> have "dropWhile ?N ?G = ?q # tl (dropWhile ?N ?G)"
    by (cases "dropWhile ?N ?G") simp_all
  with takeWhile_dropWhile_id [of ?N ?G]
  have "?G = takeWhile ?N ?G @ ?q # tl (dropWhile ?N ?G)" by simp
  from split_on_line [OF this] obtain pfx post' where
    g: "ps ! 5 = pfx @ ?q @ post'" and pfx: "pfx = [] \<or> last pfx = NL"
    and post': "post' = [] \<or> hd post' = NL"
    and sub: "set (split_on NL pfx) \<subseteq> insert [] (set (takeWhile ?N ?G))"
    by blast
  have "\<forall>l \<in> set (if True then split_on NL pfx else tl (split_on NL pfx)). \<not> prefix ''title:'' l"
  proof
    fix l assume "l \<in> set (if True then split_on NL pfx else tl (split_on NL pfx))"
    with sub have "l = [] \<or> l \<in> set (takeWhile ?N ?G)" by auto
    then show "\<not> prefix ''title:'' l"
    proof
      assume "l = []"
      then show ?thesis by simp
    next
      assume "l \<in> set (takeWhile ?N ?G)"
      then have "?N l" by (auto dest: set_takeWhileD)
      then show ?thesis by (simp add: title_field_def)
    qed
  qed
  from search_skip_lines [OF this pfx, of "?q @ post'"]
  have skip: "re_search_bol title_rx True (pfx @ ?q @ post') = re_search_bol title_rx True (?q @ post')"
    by simp
  from quick_start_line_match [OF post'] obtain qs r' where
    q: "rx_match title_rx (?q @ post') = Some (qs, r')" "qs ! 8 = ''Quick Start''"
    by blast
  obtain c cs where line: "?q @ post' = c # cs"
    by (cases "?q @ post'") (simp_all add: quick_start_line_def)
  from q(1) have "re_search_bol title_rx True (?q @ post') = Some (qs, r')"
    unfolding line by simp
  with m g skip q(2) show ?thesis by simp
qed




text \<open>
  C7 as the script has it. When the header block is followed by a newline and holds the
  line \<open>title: "Quick Start"\<close>, and no line before it in the block begins with \<open>title:\<close> or
  is three hyphens followed by white space, the title is \<open>Quick Start\<close>.
\<close>

theorem quick_start_title:
  assumes "header_block content = Some (pre @ quick_start_line # post, behind)"
    and "behind \<noteq> []"
    and "\<not> list_ex title_field pre" and "\<not> list_ex padded_delimiter pre"
  shows "extract_frontmatter_title content filepath = ''Quick Start''"
proof -
  from quick_start_found [OF assms] obtain ps r qs r' where
    "rx_match frontmatter_rx content = Some (ps, r)"
    "re_search_bol title_rx True (ps ! 5) = Some (qs, r')" "qs ! 8 = ''Quick Start''"
    by blast
  then show ?thesis
    by (simp add: extract_frontmatter_title_def py_strip_def is_space_def)
qed

theorem quick_start_title_witness:
  "header_block quick_start_content = Some ([''description: x''] @ quick_start_line # [''icon: y''], [''Body''])
   \<and> \<not> list_ex title_field [''description: x'']
   \<and> \<not> list_ex padded_delimiter [''description: x'']
   \<and> extract_frontmatter_title quick_start_content ''/d/start.mdx'' = ''Quick Start''"
proof -
  have h1: "header_block quick_start_content
      = Some ([''description: x''] @ quick_start_line # [''icon: y''], [''Body''])"
    by code_simp
  have h2: "[''Body''] \<noteq> []" by simp
  have h3: "\<not> list_ex title_field [''description: x'']" by code_simp
  have h4: "\<not> list_ex padded_delimiter [''description: x'']" by code_simp
  from quick_start_title [OF h1 h2 h3 h4, of "''/d/start.mdx''"] h1 h3 h4 show ?thesis
    by simp
qed

text \<open>
  C7 as it is stated fails in three ways. The first header holds the line
  \<open>title: "Quick Start"\<close> behind the line \<open>title: Draft\<close>, and the title is \<open>Draft\<close>. The
  second file ends with the closing line of its header, without a newline: the script
  finds no header and the title of \<open>start.mdx\<close> is \<open>Start\<close>. The third header has the line
  of three hyphens and a space before its title line: the script ends the header there,
  and the title is \<open>Start\<close> again.
\<close>

theorem quick_start_title_counterexample:
  "header_block two_titles_content = Some ([''title: Draft'', quick_start_line], [''Body''])
   \<and> extract_frontmatter_title two_titles_content ''/d/start.mdx'' = ''Draft''
   \<and> header_block unterminated_content = Some ([quick_start_line], [])
   \<and> extract_frontmatter_title unterminated_content ''/d/start.mdx'' = ''Start''
   \<and> header_block padded_body_content = Some ([''icon: y'', ''--- '', quick_start_line], [''Body''])
   \<and> extract_frontmatter_title padded_body_content ''/d/start.mdx'' = ''Start''"
proof -
  have "header_block two_titles_content = Some ([''title: Draft'', quick_start_line], [''Body''])"
    by code_simp
  moreover have "extract_frontmatter_title two_titles_content ''/d/start.mdx'' = ''Draft''"
    by code_simp
  moreover have "header_block unterminated_content = Some ([quick_start_line], [])" by code_simp
  moreover have "extract_frontmatter_title unterminated_content ''/d/start.mdx'' = ''Start''"
    by code_simp
  moreover have "header_block padded_body_content
      = Some ([''icon: y'', ''--- '', quick_start_line], [''Body''])"
    by code_simp
  moreover have "extract_frontmatter_title padded_body_content ''/d/start.mdx'' = ''Start''"
    by code_simp
  ultimately show ?thesis by blast
qed

section \<open>Patterns that end at a closing bracket\<close>

text \<open>
  When no atom of a pattern but the last can read \<open>c\<close>, a match ends at the first \<open>c\<close> of
  the text and does not depend on what follows it.
\<close>

lemma set_rest_add_piece: "set_rest r (add_piece p a) = add_piece p (set_rest r a)"
  by (cases a) (simp add: set_rest_def add_piece_def)

lemma set_rest_add_char: "set_rest r (add_char x a) = add_char x (set_rest r a)"
  by (cases a) (simp add: set_rest_def add_char_def)

lemma set_rest_group_pieces: "set_rest r (group_pieces n a) = group_pieces n (set_rest r a)"
  by (cases a) (simp add: set_rest_def group_pieces_def)

lemmas set_rest_moves = set_rest_add_piece set_rest_add_char set_rest_group_pieces

lemma stops_at_Cons:
  "stops_at c (a # as) \<longleftrightarrow> (as = [] \<and> a = Chr (is_char c)) \<or> (as \<noteq> [] \<and> avoids c a \<and> stops_at c as)"
  by (auto simp: stops_at_def)

lemma stops_at_append:
  "list_all (avoids c) bs \<Longrightarrow> stops_at c as \<Longrightarrow> stops_at c (bs @ as)"
  by (auto simp: stops_at_def butlast_append)

lemma rx_match_stop:
  assumes "stops_at c as" and "c \<notin> set v"
  shows "rx_match as (v @ c # rest) = map_option (set_rest rest) (rx_match as (v @ [c]))"
  using assms
proof (induction "size_list size as + length v" arbitrary: as v rule: less_induct)
  case less
  show ?case
  proof (cases as)
    case Nil
    with less.prems show ?thesis by (simp add: stops_at_def)
  next
    case (Cons a as')
    show ?thesis
    proof (cases "as' = []")
      case True
      with Cons less.prems have a: "a = Chr (is_char c)" by (simp add: stops_at_Cons)
      show ?thesis
      proof (cases v)
        case Nil
        with Cons True a show ?thesis by (simp add: is_char_def add_piece_def set_rest_def)
      next
        case (Cons x xs)
        with less.prems have "x \<noteq> c" by auto
        with Cons \<open>as = a # as'\<close> True a show ?thesis by (simp add: is_char_def)
      qed
    next
      case False
      with Cons less.prems have av: "avoids c a" and st: "stops_at c as'"
        by (simp_all add: stops_at_Cons)
      have tail: "rx_match as' (w @ c # rest) = map_option (set_rest rest) (rx_match as' (w @ [c]))"
        if "length w \<le> length v" "c \<notin> set w" for w
        using less.hyps [of as' w] st that Cons by simp
      show ?thesis
      proof (cases a)
        case (Chr p)
        with av have "\<not> p c" by simp
        with Chr Cons tail less.prems show ?thesis
          by (cases v) (auto simp: option.map_comp o_def set_rest_moves)
      next
        case (Opt p)
        with av have "\<not> p c" by simp
        with Opt Cons tail [of v] tail [of "tl v"] less.prems show ?thesis
          by (cases v) (auto simp: option.map_comp o_def set_rest_moves split: option.splits)
      next
        case (Star p)
        with av have npc: "\<not> p c" by simp
        show ?thesis
        proof (cases v)
          case Nil
          with Star Cons npc tail [of "[]"] show ?thesis
            by (auto simp: option.map_comp o_def set_rest_moves split: option.splits)
        next
          case (Cons x xs)
          have "stops_at c (Star p # as')"
            using npc st False by (simp add: stops_at_Cons)
          with less.hyps [of "Star p # as'" xs] less.prems Cons \<open>as = a # as'\<close> Star
          have self: "rx_match (Star p # as') (xs @ c # rest)
              = map_option (set_rest rest) (rx_match (Star p # as') (xs @ [c]))"
            by simp
          from Cons Star \<open>as = a # as'\<close> self tail [of v] less.prems show ?thesis
            by (auto simp: option.map_comp o_def set_rest_moves split: option.splits)
        qed
      next
        case (Plus p)
        with av have npc: "\<not> p c" by simp
        show ?thesis
        proof (cases v)
          case Nil
          with Plus Cons npc show ?thesis by simp
        next
          case (Cons x xs)
          have "stops_at c (Star p # as')"
            using npc st False by (simp add: stops_at_Cons)
          with less.hyps [of "Star p # as'" xs] less.prems Cons \<open>as = a # as'\<close> Plus
          have self: "rx_match (Star p # as') (xs @ c # rest)
              = map_option (set_rest rest) (rx_match (Star p # as') (xs @ [c]))"
            by simp
          from Cons Plus \<open>as = a # as'\<close> self show ?thesis
            by (auto simp: option.map_comp o_def set_rest_moves split: option.splits)
        qed
      next
        case (LazyStar p)
        with av have npc: "\<not> p c" by simp
        show ?thesis
        proof (cases v)
          case Nil
          with LazyStar Cons npc tail [of "[]"] show ?thesis
            by (auto simp: option.map_comp o_def set_rest_moves split: option.splits)
        next
          case (Cons x xs)
          have "stops_at c (LazyStar p # as')"
            using npc st False by (simp add: stops_at_Cons)
          with less.hyps [of "LazyStar p # as'" xs] less.prems Cons \<open>as = a # as'\<close> LazyStar
          have self: "rx_match (LazyStar p # as') (xs @ c # rest)
              = map_option (set_rest rest) (rx_match (LazyStar p # as') (xs @ [c]))"
            by simp
          from Cons LazyStar \<open>as = a # as'\<close> self tail [of v] less.prems show ?thesis
            by (auto simp: option.map_comp o_def set_rest_moves split: option.splits)
        qed
      next
        case (OptSeq bs)
        with av have "list_all (avoids c) bs" by simp
        then have "stops_at c (bs @ as')" using st by (rule stops_at_append)
        with less.hyps [of "bs @ as'" v] less.prems Cons OptSeq
        have inner: "rx_match (bs @ as') (v @ c # rest)
            = map_option (set_rest rest) (rx_match (bs @ as') (v @ [c]))"
          by simp
        from OptSeq Cons inner tail [of v] less.prems show ?thesis
          by (auto simp: option.map_comp o_def set_rest_moves split: option.splits)
      next
        case Eol
        with av show ?thesis by simp
      qed
    qed
  qed
qed


section \<open>Tag stripping on texts without nested tags\<close>

lemma tag_rx_plain: "tag_rx rx \<Longrightarrow> x \<noteq> CHR ''<'' \<Longrightarrow> rx_match rx (x # s) = None"
  by (auto simp: tag_rx_def is_char_def)

lemma re_sub_plain: "tag_rx rx \<Longrightarrow> x \<noteq> CHR ''<'' \<Longrightarrow> re_sub rx r (x # s) = x # re_sub rx r s"
  by (simp add: tag_rx_plain re_sub.simps)

lemma re_sub_chars: "tag_rx rx \<Longrightarrow> CHR ''<'' \<notin> set u \<Longrightarrow> re_sub rx r (u @ s) = u @ re_sub rx r s"
  by (induction u) (auto simp: re_sub_plain)

lemma re_sub_lone:
  assumes "tag_rx rx" and "wf_tok (Lone c)"
  shows "re_sub rx r (CHR ''<'' # c # s) = CHR ''<'' # c # re_sub rx r s"
proof -
  from assms have "rx_match rx (CHR ''<'' # c # s) = None"
    by (auto simp: tag_rx_def is_char_def)
  moreover from assms have "re_sub rx r (c # s) = c # re_sub rx r s"
    by (simp add: re_sub_plain)
  ultimately show ?thesis by (simp add: re_sub.simps)
qed

lemma re_sub_tag:
  assumes "tag_rx rx" and "wf_tok (Tag v)"
  shows "re_sub rx [] (CHR ''<'' # v @ CHR ''>'' # s)
           = (if tag_matches rx v then [] else CHR ''<'' # v @ ''>'') @ re_sub rx [] s"
proof -
  from assms have st: "stops_at CHR ''>'' rx" and nv: "CHR ''>'' \<notin> set (CHR ''<'' # v)"
    by (simp_all add: tag_rx_def)
  from rx_match_stop [OF st nv, of s]
  have m: "rx_match rx (CHR ''<'' # v @ CHR ''>'' # s)
      = map_option (set_rest s) (rx_match rx (CHR ''<'' # v @ ''>''))"
    by simp
  show ?thesis
  proof (cases "rx_match rx (CHR ''<'' # v @ ''>'')")
    case None
    with m have "rx_match rx (CHR ''<'' # v @ CHR ''>'' # s) = None" by simp
    then have "re_sub rx [] (CHR ''<'' # v @ CHR ''>'' # s) = CHR ''<'' # re_sub rx [] (v @ CHR ''>'' # s)"
      by (simp add: re_sub.simps)
    also have "re_sub rx [] (v @ CHR ''>'' # s) = v @ re_sub rx [] (CHR ''>'' # s)"
      using assms by (simp add: re_sub_chars)
    also have "re_sub rx [] (CHR ''>'' # s) = CHR ''>'' # re_sub rx [] s"
      using assms(1) by (simp add: re_sub_plain)
    finally show ?thesis using None by (simp add: tag_matches_def)
  next
    case (Some a)
    with m have "rx_match rx (CHR ''<'' # v @ CHR ''>'' # s) = Some (fst a, s)"
      by (simp add: set_rest_def)
    then have "re_sub rx [] (CHR ''<'' # v @ CHR ''>'' # s) = re_sub rx [] s"
      by (simp add: re_sub.simps)
    with Some show ?thesis by (simp add: tag_matches_def)
  qed
qed

lemma re_sub_toks:
  assumes "tag_rx rx" and "list_all wf_tok ts"
  shows "re_sub rx [] (render_toks ts) = render_toks (filter (kept rx) ts)"
  using assms(2)
proof (induction ts)
  case Nil
  then show ?case by (simp add: render_toks_def re_sub.simps)
next
  case (Cons t ts)
  then have ih: "re_sub rx [] (render_toks ts) = render_toks (filter (kept rx) ts)" by simp
  show ?case
  proof (cases t)
    case (Txt c)
    with Cons.prems ih assms(1) show ?thesis
      by (simp add: render_toks_def re_sub_plain)
  next
    case (Lone c)
    with Cons.prems have "wf_tok (Lone c)" by simp
    from re_sub_lone [OF assms(1) this] Lone ih show ?thesis
      by (simp add: render_toks_def)
  next
    case (Tag v)
    with Cons.prems have "wf_tok (Tag v)" by simp
    from re_sub_tag [OF assms(1) this, of "render_toks ts"] Tag ih show ?thesis
      by (simp add: render_toks_def)
  qed
qed

lemma tag_rx_patterns:
  "tag_rx self_closing_rx" "tag_rx opening_rx" "tag_rx closing_rx" "tag_rx malformed_rx"
  by (auto simp: tag_rx_def stops_at_def self_closing_rx_def opening_rx_def closing_rx_def
      malformed_rx_def lit_def is_char_def is_upper_def is_alpha_def is_lower_def is_space_def
      not_char_def)

lemma strip_toks:
  assumes "list_all wf_tok ts"
  shows "strip_mdx_components (render_toks ts)
           = render_toks (filter (\<lambda>t. kept self_closing_rx t \<and> kept opening_rx t \<and> kept closing_rx t
               \<and> kept malformed_rx t) ts)"
proof -
  have wf: "list_all wf_tok (filter P ts)" for P
    using assms by (simp add: list_all_iff)
  have "strip_mdx_components (render_toks ts)
      = render_toks (filter (kept malformed_rx) (filter (kept closing_rx) (filter (kept opening_rx)
          (filter (kept self_closing_rx) ts))))"
    unfolding strip_mdx_components_def
    by (simp add: re_sub_toks tag_rx_patterns assms wf)
  then show ?thesis by (simp add: conj_commute conj_left_commute)
qed

text \<open>
  C3 as the script has it. On a text in which no tag lies inside the brackets of
  another, each pass removes exactly the complete tags its pattern matches, so what one
  run of \<open>strip_mdx_components\<close> leaves is left unchanged by a second run.
\<close>

theorem strip_idempotent_flat:
  assumes "list_all wf_tok ts"
  shows "strip_mdx_components (strip_mdx_components (render_toks ts))
           = strip_mdx_components (render_toks ts)"
proof -
  let ?keep = "\<lambda>t. kept self_closing_rx t \<and> kept opening_rx t \<and> kept closing_rx t \<and> kept malformed_rx t"
  have "list_all wf_tok (filter ?keep ts)"
    using assms by (simp add: list_all_iff)
  then have "strip_mdx_components (render_toks (filter ?keep ts))
      = render_toks (filter ?keep (filter ?keep ts))"
    by (rule strip_toks)
  then show ?thesis
    unfolding strip_toks [OF assms] by simp
qed

theorem strip_idempotent_flat_witness:
  "list_all wf_tok flat_tokens
   \<and> render_toks flat_tokens = ''a< b<Card title=x>W</Card><br/><Icon /><Note/></div>>''
   \<and> strip_mdx_components (render_toks flat_tokens) = ''a< bW<br/></div>>''
   \<and> strip_mdx_components (strip_mdx_components (render_toks flat_tokens)) = ''a< bW<br/></div>>''"
proof -
  have h: "list_all wf_tok flat_tokens" by code_simp
  have r: "render_toks flat_tokens = ''a< b<Card title=x>W</Card><br/><Icon /><Note/></div>>''"
    by code_simp
  have s: "strip_mdx_components (render_toks flat_tokens) = ''a< bW<br/></div>>''"
    by code_simp
  from strip_idempotent_flat [OF h] h r s show ?thesis by simp
qed

text \<open>
  C3 as it is stated fails: in \<open><<Card>Card>\<close> the removal of the inner tag leaves
  \<open><Card>\<close>, which a second run removes.
\<close>

theorem strip_idempotent_counterexample:
  "strip_mdx_components nested_tag_text = ''<Card>''
   \<and> strip_mdx_components (strip_mdx_components nested_tag_text) = []"
  by code_simp


end
